theory Spec2Isabelle
  imports Main "HOL-Library.Sublist" "HOL-Library.Word"
begin

section \<open>buildmain.c: peripheral chaining and enumerator ROM packing\<close>

text \<open>
  The program reads a description file, copies its first eight lines into the
  enumerator ROM image, then reads whitespace-delimited peripheral names, looks
  each one up in the table \<open>enumerators\<close>, calls the invocation function of the
  entry (which prints the Verilog wiring of the peripheral and returns the next
  free connector pin), appends the library name of the entry to the ROM image and
  finally prints sixteen \<open>.INIT_xx\<close> records of 32 bytes of the image each.

  Conventions of the embedding:
  \<^item> a C string is a \<open>string\<close> (a list of bytes); the byte \<open>NUL\<close> ends a string
    held in a buffer, which \<open>cstr\<close> computes;
  \<^item> the C type \<open>int\<close> of \<open>slot\<close>, of \<open>pin\<close> and of the arguments and results
    of the invocation functions is the type \<open>cint\<close> of the 32-bit machine words,
    whose \<open>+\<close> wraps around and whose signed value \<open>sint\<close> gives; \<open>romindx\<close>
    and the loop counters, which stay between 0 and a few thousand, are natural
    numbers;
  \<^item> every \<open>fprintf(stdout, fmt, args)\<close> of an invocation function is one
    element of the wiring output, in the order of the calls;
  \<^item> \<open>exit(1)\<close> is the left injection of the result, carrying the reason and the
    state of the run at that moment; the reason stands for the message, which for an
    unknown peripheral goes to \<open>stderr\<close> and names the token.
\<close>

subsection \<open>Bytes and C strings\<close>

definition NUL :: char where
  "NUL = CHR 0x00"

definition NL :: char where
  "NL = CHR 0x0A"

definition cstr :: "string \<Rightarrow> string" where
  "cstr buf = takeWhile (\<lambda>c. c \<noteq> NUL) buf"

definition strlen :: "string \<Rightarrow> nat" where
  "strlen buf = length (cstr buf)"

text \<open>
  \<open>strncmp(a, b, n) == 0\<close>: at most \<open>n\<close> bytes are compared, and the comparison
  stops with equality at a common terminating NUL. The end of the list stands for
  the terminator of the buffer.
\<close>

fun strncmp_eq :: "nat \<Rightarrow> string \<Rightarrow> string \<Rightarrow> bool" where
  "strncmp_eq 0 a b = True"
| "strncmp_eq (Suc n) [] [] = True"
| "strncmp_eq (Suc n) [] (y # ys) = (y = NUL)"
| "strncmp_eq (Suc n) (x # xs) [] = (x = NUL)"
| "strncmp_eq (Suc n) (x # xs) (y # ys) =
     (if x \<noteq> y then False else if x = NUL then True else strncmp_eq n xs ys)"

definition isspace :: "char \<Rightarrow> bool" where
  "isspace c = (c = CHR 0x20 \<or> c = CHR 0x09 \<or> c = CHR 0x0A \<or> c = CHR 0x0B \<or> c = CHR 0x0C \<or> c = CHR 0x0D)"


subsection \<open>The type \<open>int\<close>\<close>

text \<open>
  An \<open>int\<close> has 32 bits. The sum of two \<open>int\<close> that lies outside the range from
  \<open>- INT_MAX - 1\<close> to \<open>INT_MAX\<close> is not defined by the C standard; the program compiled
  for a two's-complement machine wraps around, as the addition of \<open>32 word\<close> does.
\<close>

type_synonym cint = "32 word"

definition INT_MAX :: int where
  "INT_MAX = 2147483647"

subsection \<open>The wiring output\<close>

text \<open>
  An argument of a \<open>printf\<close> call is an \<open>int\<close> or a string. A line that connects
  a connector pin has a constructor of its own, so that the pins a peripheral uses
  can be read off its output: \<open>PinOut pin addr sig\<close> is the call
  \<^verbatim>\<open>fprintf(stdout, "    assign `PIN_%02d = p%02d<sig>;\n", pin, addr)\<close>
  and \<open>PinIn addr sig pin\<close> is
  \<^verbatim>\<open>fprintf(stdout, "    assign p%02d<sig> = `PIN_%02d;\n", addr, pin)\<close>.
  Every other call is \<open>Txt fmt args\<close>. The function \<open>as_printf\<close> gives the
  format and the arguments of the call back.
\<close>

datatype arg = I cint | S string

datatype wiring =
    Txt string "arg list"
  | PinOut cint cint string
  | PinIn cint string cint

fun as_printf :: "wiring \<Rightarrow> string \<times> arg list" where
  "as_printf (Txt fmt args) = (fmt, args)"
| "as_printf (PinOut pin addr sig) =
     (''    assign `PIN_%02d = p%02d'' @ sig @ '';\<newline>'', [I pin, I addr])"
| "as_printf (PinIn addr sig pin) =
     (''    assign p%02d'' @ sig @ '' = `PIN_%02d;\<newline>'', [I addr, I pin])"

fun pins_of :: "wiring \<Rightarrow> cint list" where
  "pins_of (Txt fmt args) = []"
| "pins_of (PinOut pin addr sig) = [pin]"
| "pins_of (PinIn addr sig pin) = [pin]"

definition extpins :: "wiring list \<Rightarrow> cint list" where
  "extpins ws = concat (map pins_of ws)"

subsection \<open>The peripheral invocation functions\<close>

text \<open>
  Each function takes the peripheral address, the first free pin and the name, and
  returns what it prints together with the next free pin. \<open>printbus\<close> prints the
  bus lines common to all peripherals. The function \<open>null\<close> of the source is
  \<open>null_peri\<close> here. (\<open>watchdog2\<close> is defined in the source but no table entry
  refers to it, so it is never called.)
\<close>

definition printbus :: "cint \<Rightarrow> string \<Rightarrow> wiring list" where
  "printbus slot peri =
    [Txt ''\<newline>    // %s\<newline>'' [S peri],
     Txt ''    %s p%02d(p%02dclk,p%02drdwr,'' [S peri, I slot, I slot, I slot],
     Txt ''p%02dstrobe,p%02dour_addr,p%02daddr,\<newline>'' [I slot, I slot, I slot],
     Txt ''        p%02dbusy_in,p%02dbusy_out,p%02daddr_match_in,'' [I slot, I slot, I slot],
     Txt ''p%02daddr_match_out,p%02ddatin,p%02ddatout,\<newline>'' [I slot, I slot, I slot]]"

definition perilist :: "cint \<Rightarrow> cint \<Rightarrow> string \<Rightarrow> wiring list \<times> cint" where
  "perilist addr startpin peri =
    ([Txt ''\<newline>    // %s\<newline>'' [S peri],
      Txt ''    %s p%02d(p%02dclk,p%02drdwr,'' [S peri, I addr, I addr, I addr],
      Txt ''p%02dstrobe,p%02dour_addr,p%02daddr,\<newline>'' [I addr, I addr, I addr],
      Txt ''        p%02dbusy_in,p%02dbusy_out,p%02daddr_match_in,'' [I addr, I addr, I addr],
      Txt ''p%02daddr_match_out,p%02ddatin,p%02ddatout);\<newline>'' [I addr, I addr, I addr]],
     startpin + 0)"

definition bb4io :: "cint \<Rightarrow> cint \<Rightarrow> string \<Rightarrow> wiring list \<times> cint" where
  "bb4io addr startpin peri =
    ([Txt ''\<newline>    wire [7:0] p%02dleds;'' [I addr],
      Txt ''\<newline>    wire p%02dbntn1;'' [I addr],
      Txt ''\<newline>    wire p%02dbntn2;'' [I addr],
      Txt ''\<newline>    wire p%02dbntn3;'' [I addr]] @
     printbus addr peri @
     [Txt ''        p%02dleds,p%02dbntn1,p%02dbntn2,p%02dbntn3);\<newline>'' [I addr, I addr, I addr, I addr],
      Txt ''    assign p%02dbntn1 = BNTN1;\<newline>'' [I addr],
      Txt ''    assign p%02dbntn2 = BNTN2;\<newline>'' [I addr],
      Txt ''    assign p%02dbntn3 = BNTN3;\<newline>'' [I addr],
      Txt ''    assign LED = p%02dleds;\<newline>'' [I addr]],
     startpin + 0)"

definition stepu :: "cint \<Rightarrow> cint \<Rightarrow> string \<Rightarrow> wiring list \<times> cint" where
  "stepu addr startpin peri =
    (printbus addr peri @
     [Txt ''        p%02dm1clk,p%02du100clk,p%02du10clk,p%02du1clk,'' [I addr, I addr, I addr, I addr],
      Txt ''        p%02dcoila,p%02dcoilb,p%02dcoilc,p%02dcoild);\<newline>'' [I addr, I addr, I addr, I addr],
      Txt ''    assign p%02dm1clk = bc0m1clk;\<newline>'' [I addr],
      Txt ''    assign p%02du100clk = bc0u100clk;\<newline>'' [I addr],
      Txt ''    assign p%02du10clk = bc0u10clk;\<newline>'' [I addr],
      Txt ''    assign p%02du1clk = bc0u1clk;\<newline>'' [I addr],
      PinOut startpin addr ''coila'',
      PinOut (startpin + 1) addr ''coilb'',
      PinOut (startpin + 2) addr ''coilc'',
      PinOut (startpin + 3) addr ''coild''],
     startpin + 4)"

definition stepb :: "cint \<Rightarrow> cint \<Rightarrow> string \<Rightarrow> wiring list \<times> cint" where
  "stepb addr startpin peri =
    (printbus addr peri @
     [Txt ''        p%02dm1clk,p%02du100clk,p%02du10clk,p%02du1clk,\<newline>'' [I addr, I addr, I addr, I addr],
      Txt ''        p%02dain1,p%02dain2,p%02dbin1,p%02dbin2);\<newline>'' [I addr, I addr, I addr, I addr],
      Txt ''    assign p%02dm1clk = bc0m1clk;\<newline>'' [I addr],
      Txt ''    assign p%02du100clk = bc0u100clk;\<newline>'' [I addr],
      Txt ''    assign p%02du10clk = bc0u10clk;\<newline>'' [I addr],
      Txt ''    assign p%02du1clk = bc0u1clk;\<newline>'' [I addr],
      PinOut startpin addr ''ain1'',
      PinOut (startpin + 1) addr ''ain2'',
      PinOut (startpin + 2) addr ''bin1'',
      PinOut (startpin + 3) addr ''bin2''],
     startpin + 4)"

definition dc2 :: "cint \<Rightarrow> cint \<Rightarrow> string \<Rightarrow> wiring list \<times> cint" where
  "dc2 addr startpin peri =
    (printbus addr ''dc2'' @
     [Txt ''   p%02dm100clk,p%02du100clk,\<newline>'' [I addr, I addr],
      Txt ''   p%02du10clk,p%02du1clk,p%02dn100clk,\<newline>'' [I addr, I addr, I addr],
      Txt ''   p%02dain1,p%02dain2,p%02dbin1,p%02dbin2);\<newline>'' [I addr, I addr, I addr, I addr],
      Txt ''    assign p%02dm100clk = bc0m100clk;\<newline>'' [I addr],
      Txt ''    assign p%02dm10clk = bc0m10clk;\<newline>'' [I addr],
      Txt ''    assign p%02dm1clk = bc0m1clk;\<newline>'' [I addr],
      Txt ''    assign p%02du100clk = bc0u100clk;\<newline>'' [I addr],
      Txt ''    assign p%02du10clk = bc0u10clk;\<newline>'' [I addr],
      Txt ''    assign p%02du1clk = bc0u1clk;\<newline>'' [I addr],
      Txt ''    assign p%02dn100clk = bc0n100clk;\<newline>'' [I addr],
      PinOut startpin addr ''ain1'',
      PinOut (startpin + 1) addr ''ain2'',
      PinOut (startpin + 2) addr ''bin1'',
      PinOut (startpin + 3) addr ''bin2''],
     startpin + 4)"

definition pgen16 :: "cint \<Rightarrow> cint \<Rightarrow> string \<Rightarrow> wiring list \<times> cint" where
  "pgen16 addr startpin peri =
    ([Txt ''\<newline>    wire [3:0] p%02dpattern;'' [I addr]] @
     printbus addr ''pgen16'' @
     [Txt ''        p%02dm100clk,p%02dm10clk,p%02dm1clk,'' [I addr, I addr, I addr],
      Txt ''        p%02du100clk,p%02du10clk,p%02du1clk,p%02dn100clk,'' [I addr, I addr, I addr, I addr],
      Txt ''        p%02dpattern);\<newline>'' [I addr],
      Txt ''    assign p%02dm100clk = bc0m100clk;\<newline>'' [I addr],
      Txt ''    assign p%02dm10clk = bc0m10clk;\<newline>'' [I addr],
      Txt ''    assign p%02dm1clk = bc0m1clk;\<newline>'' [I addr],
      Txt ''    assign p%02du100clk = bc0u100clk;\<newline>'' [I addr],
      Txt ''    assign p%02du10clk = bc0u10clk;\<newline>'' [I addr],
      Txt ''    assign p%02du1clk = bc0u1clk;\<newline>'' [I addr],
      Txt ''    assign p%02dn100clk = bc0n100clk;\<newline>'' [I addr],
      PinOut startpin addr ''pattern[0]'',
      PinOut (startpin + 1) addr ''pattern[1]'',
      PinOut (startpin + 2) addr ''pattern[2]'',
      PinOut (startpin + 3) addr ''pattern[3]''],
     startpin + 4)"

definition quad2 :: "cint \<Rightarrow> cint \<Rightarrow> string \<Rightarrow> wiring list \<times> cint" where
  "quad2 addr startpin peri =
    ([Txt ''\<newline>    wire p%02dm10clk;'' [I addr],
      Txt ''\<newline>    wire p%02du1clk;'' [I addr],
      Txt ''\<newline>    wire p%02da1;'' [I addr],
      Txt ''\<newline>    wire p%02da2;'' [I addr],
      Txt ''\<newline>    wire p%02db1;'' [I addr],
      Txt ''\<newline>    wire p%02db2;'' [I addr]] @
     printbus addr peri @
     [Txt ''    p%02dm10clk,p%02du1clk,p%02da1,p%02da2,           p%02db1,p%02db2);\<newline>'' [I addr, I addr, I addr, I addr, I addr, I addr],
      Txt ''    assign p%02dm10clk = bc0m10clk;\<newline>'' [I addr],
      Txt ''    assign p%02du1clk = bc0u1clk;\<newline>'' [I addr],
      PinIn addr ''a1'' startpin,
      PinIn addr ''a2'' (startpin + 1),
      PinIn addr ''b1'' (startpin + 2),
      PinIn addr ''b2'' (startpin + 3)],
     startpin + 4)"

definition qtr4 :: "cint \<Rightarrow> cint \<Rightarrow> string \<Rightarrow> wiring list \<times> cint" where
  "qtr4 addr startpin peri =
    ([Txt ''\<newline>    wire p%02dm10clk;'' [I addr],
      Txt ''\<newline>    wire p%02du10clk;'' [I addr],
      Txt ''\<newline>    tri [3:0] p%02dq;'' [I addr]] @
     printbus addr peri @
     [Txt ''    p%02dm10clk,p%02du10clk,p%02dq);\<newline>'' [I addr, I addr, I addr],
      Txt ''    assign p%02dm10clk = bc0m10clk;\<newline>'' [I addr],
      Txt ''    assign p%02du10clk = bc0u10clk;\<newline>'' [I addr],
      PinOut startpin addr ''q[0]'',
      PinOut (startpin + 1) addr ''q[1]'',
      PinOut (startpin + 2) addr ''q[2]'',
      PinOut (startpin + 3) addr ''q[3]''],
     startpin + 4)"

definition qtr8 :: "cint \<Rightarrow> cint \<Rightarrow> string \<Rightarrow> wiring list \<times> cint" where
  "qtr8 addr startpin peri =
    ([Txt ''\<newline>    wire p%02dm10clk;'' [I addr],
      Txt ''\<newline>    wire p%02du10clk;'' [I addr],
      Txt ''\<newline>    tri [7:0] p%02dq;'' [I addr]] @
     printbus addr peri @
     [Txt ''    p%02dm10clk,p%02du10clk,p%02dq);\<newline>'' [I addr, I addr, I addr],
      Txt ''    assign p%02dm10clk = bc0m10clk;\<newline>'' [I addr],
      Txt ''    assign p%02du10clk = bc0u10clk;\<newline>'' [I addr],
      PinOut startpin addr ''q[0]'',
      PinOut (startpin + 1) addr ''q[1]'',
      PinOut (startpin + 2) addr ''q[2]'',
      PinOut (startpin + 3) addr ''q[3]'',
      PinOut (startpin + 4) addr ''q[4]'',
      PinOut (startpin + 5) addr ''q[5]'',
      PinOut (startpin + 6) addr ''q[6]'',
      PinOut (startpin + 7) addr ''q[7]''],
     startpin + 8)"

definition roten :: "cint \<Rightarrow> cint \<Rightarrow> string \<Rightarrow> wiring list \<times> cint" where
  "roten addr startpin peri =
    (printbus addr peri @
     [Txt ''    p%02dbtn,p%02dq1,p%02dq2,p%02dled);\<newline>'' [I addr, I addr, I addr, I addr],
      Txt ''    assign p%02dpollevt = bc0pollevt;\<newline>'' [I addr],
      PinIn addr ''btn'' startpin,
      PinIn addr ''q1'' (startpin + 1),
      PinIn addr ''q2'' (startpin + 2),
      PinOut (startpin + 3) addr ''led''],
     startpin + 4)"

definition count4 :: "cint \<Rightarrow> cint \<Rightarrow> string \<Rightarrow> wiring list \<times> cint" where
  "count4 addr startpin peri =
    (printbus addr ''count4'' @
     [Txt ''    p%02dm10clk,p%02du1clk,p%02da,p%02db,p%02dc,p%02dd);\<newline>'' [I addr, I addr, I addr, I addr, I addr, I addr],
      Txt ''    assign p%02dm10clk = bc0m10clk;\<newline>'' [I addr],
      Txt ''    assign p%02du1clk = bc0u1clk;\<newline>'' [I addr],
      PinIn addr ''a'' startpin,
      PinIn addr ''b'' (startpin + 1),
      PinIn addr ''c'' (startpin + 2),
      PinIn addr ''d'' (startpin + 3)],
     startpin + 4)"

definition servo4 :: "cint \<Rightarrow> cint \<Rightarrow> string \<Rightarrow> wiring list \<times> cint" where
  "servo4 addr pin peri =
    ([Txt ''\<newline>    wire [3:0] p%02dservo;'' [I addr]] @
     printbus addr peri @
     [Txt ''        p%02dservo);\<newline>'' [I addr],
      PinOut pin addr ''servo[0]'',
      PinOut (pin + 1) addr ''servo[1]'',
      PinOut (pin + 2) addr ''servo[2]'',
      PinOut (pin + 3) addr ''servo[3]''],
     pin + 4)"

definition ping4 :: "cint \<Rightarrow> cint \<Rightarrow> string \<Rightarrow> wiring list \<times> cint" where
  "ping4 addr pin peri =
    ([Txt ''\<newline>    tri [3:0] p%02dpng;'' [I addr]] @
     printbus addr peri @
     [Txt ''    p%02du1clk, p%02dm10clk, p%02dpng);\<newline>'' [I addr, I addr, I addr],
      Txt ''    assign p%02du1clk = bc0u1clk;\<newline>'' [I addr],
      Txt ''    assign p%02dm10clk = bc0m10clk;\<newline>'' [I addr],
      PinOut pin addr ''png[0]'',
      PinOut (pin + 1) addr ''png[1]'',
      PinOut (pin + 2) addr ''png[2]'',
      PinOut (pin + 3) addr ''png[3]''],
     pin + 4)"

definition irio :: "cint \<Rightarrow> cint \<Rightarrow> string \<Rightarrow> wiring list \<times> cint" where
  "irio addr pin peri =
    ([Txt ''\<newline>    tri p%02dspare0;'' [I addr],
      Txt ''\<newline>    tri p%02dspare1;'' [I addr]] @
     printbus addr peri @
     [Txt '' p%02du100clk, p%02du1clk, p%02drxled, '' [I addr, I addr, I addr],
      Txt ''p%02dtxled, p%02dirout, p%02dirin);\<newline>'' [I addr, I addr, I addr],
      Txt ''    assign p%02du100clk = bc0u100clk;\<newline>'' [I addr],
      Txt ''    assign p%02du1clk = bc0u1clk;\<newline>'' [I addr],
      PinOut (pin + 0) addr ''rxled'',
      PinOut (pin + 1) addr ''txled'',
      PinOut (pin + 2) addr ''irout'',
      PinIn addr ''irin'' (pin + 3)],
     pin + 4)"

definition rcrx :: "cint \<Rightarrow> cint \<Rightarrow> string \<Rightarrow> wiring list \<times> cint" where
  "rcrx addr pin peri =
    ([Txt ''\<newline>    tri p%02dspare0;'' [I addr],
      Txt ''\<newline>    tri p%02dspare1;'' [I addr]] @
     printbus addr peri @
     [Txt ''        p%02dn100clk, p%02drcin, p%02dpktled, '' [I addr, I addr, I addr],
      Txt ''p%02dspare0, p%02dspare1);\<newline>'' [I addr, I addr],
      Txt ''    assign p%02dn100clk = bc0n100clk;\<newline>'' [I addr],
      PinIn addr ''rcin'' pin,
      PinOut (pin + 1) addr ''pktled'',
      PinOut (pin + 2) addr ''spare0'',
      PinOut (pin + 3) addr ''spare1''],
     pin + 4)"

definition rfob :: "cint \<Rightarrow> cint \<Rightarrow> string \<Rightarrow> wiring list \<times> cint" where
  "rfob addr pin peri =
    (printbus addr peri @
     [Txt ''        p%02du10clk, p%02dm1clk, p%02drfdin, '' [I addr, I addr, I addr],
      Txt ''p%02drssi, p%02dpwml, p%02dpwmh);\<newline>'' [I addr, I addr, I addr],
      Txt ''    assign p%02du10clk = bc0u10clk;\<newline>'' [I addr],
      Txt ''    assign p%02dm1clk = bc0m1clk;\<newline>'' [I addr],
      PinIn addr ''rfdin'' pin,
      PinIn addr ''rssi'' (pin + 1),
      PinOut (pin + 2) addr ''pwml'',
      PinOut (pin + 3) addr ''pwmh''],
     pin + 4)"

definition espi :: "cint \<Rightarrow> cint \<Rightarrow> string \<Rightarrow> wiring list \<times> cint" where
  "espi addr pin peri =
    (printbus addr ''espi'' @
     [Txt ''        p%02du100clk, p%02du10clk, '' [I addr, I addr],
      Txt ''        p%02du1clk, p%02dn100clk, '' [I addr, I addr],
      Txt ''        p%02dmosi, p%02da, p%02db, p%02dmiso);\<newline>'' [I addr, I addr, I addr, I addr],
      Txt ''    assign p%02du100clk = bc0u100clk;\<newline>'' [I addr],
      Txt ''    assign p%02du10clk = bc0u10clk;\<newline>'' [I addr],
      Txt ''    assign p%02du1clk = bc0u1clk;\<newline>'' [I addr],
      Txt ''    assign p%02dn100clk = bc0n100clk;\<newline>'' [I addr],
      PinOut pin addr ''mosi'',
      PinOut (pin + 1) addr ''a'',
      PinOut (pin + 2) addr ''b'',
      PinIn addr ''miso'' (pin + 3)],
     pin + 4)"

definition adc12 :: "cint \<Rightarrow> cint \<Rightarrow> string \<Rightarrow> wiring list \<times> cint" where
  "adc12 addr pin peri =
    ([Txt ''\<newline>    wire p%02dn100clk;\<newline>'' [I addr],
      Txt ''    wire p%02dm1clk;\<newline>'' [I addr],
      Txt ''    wire p%02dmosi;\<newline>'' [I addr],
      Txt ''    wire p%02da;\<newline>'' [I addr],
      Txt ''    wire p%02db;\<newline>'' [I addr],
      Txt ''    wire p%02dmiso;'' [I addr]] @
     printbus addr ''adc12'' @
     [Txt ''    p%02dn100clk, p%02dm1clk, p%02dmosi, '' [I addr, I addr, I addr],
      Txt ''    p%02da, p%02db, p%02dmiso);\<newline>'' [I addr, I addr, I addr],
      Txt ''    assign p%02dn100clk = bc0n100clk;\<newline>'' [I addr],
      Txt ''    assign p%02dm1clk = bc0m1clk;\<newline>'' [I addr],
      PinOut pin addr ''mosi'',
      PinOut (pin + 1) addr ''a'',
      PinOut (pin + 2) addr ''b'',
      PinIn addr ''miso'' (pin + 3)],
     pin + 4)"

definition ws2812 :: "cint \<Rightarrow> cint \<Rightarrow> string \<Rightarrow> wiring list \<times> cint" where
  "ws2812 addr pin peri =
    (printbus addr ''ws2812'' @
     [Txt ''    p%02dled1,p%02dled2,'' [I addr, I addr],
      Txt ''    p%02dled3,p%02dled4);\<newline>'' [I addr, I addr],
      PinOut pin addr ''led1'',
      PinOut (pin + 1) addr ''led2'',
      PinOut (pin + 2) addr ''led3'',
      PinOut (pin + 3) addr ''led4''],
     pin + 4)"

definition out4 :: "cint \<Rightarrow> cint \<Rightarrow> string \<Rightarrow> wiring list \<times> cint" where
  "out4 addr pin peri =
    ([Txt ''\<newline>    wire [3:0] p%02dbitout;'' [I addr]] @
     printbus addr ''out4'' @
     [Txt ''        p%02dbitout);\<newline>'' [I addr],
      PinOut pin addr ''bitout[0]'',
      PinOut (pin + 1) addr ''bitout[1]'',
      PinOut (pin + 2) addr ''bitout[2]'',
      PinOut (pin + 3) addr ''bitout[3]''],
     pin + 4)"

definition out4l :: "cint \<Rightarrow> cint \<Rightarrow> string \<Rightarrow> wiring list \<times> cint" where
  "out4l addr pin peri =
    ([Txt ''\<newline>    wire [3:0] p%02dbitout;'' [I addr]] @
     printbus addr ''out4l'' @
     [Txt ''        p%02dbitout);\<newline>'' [I addr],
      PinOut pin addr ''bitout[0]'',
      PinOut (pin + 1) addr ''bitout[1]'',
      PinOut (pin + 2) addr ''bitout[2]'',
      PinOut (pin + 3) addr ''bitout[3]''],
     pin + 4)"

definition gpio4 :: "cint \<Rightarrow> cint \<Rightarrow> string \<Rightarrow> wiring list \<times> cint" where
  "gpio4 addr pin peri =
    ([Txt ''\<newline>    tri [3:0] p%02dsbio;'' [I addr]] @
     printbus addr peri @
     [Txt ''        p%02dsbio);\<newline>'' [I addr],
      PinOut pin addr ''sbio[0]'',
      PinOut (pin + 1) addr ''sbio[1]'',
      PinOut (pin + 2) addr ''sbio[2]'',
      PinOut (pin + 3) addr ''sbio[3]''],
     pin + 4)"

definition in4 :: "cint \<Rightarrow> cint \<Rightarrow> string \<Rightarrow> wiring list \<times> cint" where
  "in4 addr startpin peri =
    ([Txt ''\<newline>    wire [3:0] p%02din;'' [I addr]] @
     printbus addr ''in4'' @
     [Txt ''        p%02din);\<newline>'' [I addr],
      Txt ''    assign p%02dpollevt = bc0pollevt;\<newline>'' [I addr],
      PinIn addr ''in[0]'' startpin,
      PinIn addr ''in[1]'' (startpin + 1),
      PinIn addr ''in[2]'' (startpin + 2),
      PinIn addr ''in[3]'' (startpin + 3)],
     startpin + 4)"

definition out32 :: "cint \<Rightarrow> cint \<Rightarrow> string \<Rightarrow> wiring list \<times> cint" where
  "out32 addr startpin peri =
    (printbus addr peri @
     [Txt ''    p%02du10clk, '' [I addr],
      Txt ''    p%02dpin2,p%02dpin4,p%02dpin6,p%02dpin8);\<newline>'' [I addr, I addr, I addr, I addr],
      PinOut startpin addr ''pin2'',
      PinOut (startpin + 1) addr ''pin4'',
      PinOut (startpin + 2) addr ''pin6'',
      PinOut (startpin + 3) addr ''pin8''],
     startpin + 4)"

definition lcd6 :: "cint \<Rightarrow> cint \<Rightarrow> string \<Rightarrow> wiring list \<times> cint" where
  "lcd6 addr startpin peri =
    ([Txt ''\<newline>    wire p%02du100clk;'' [I addr],
      Txt ''\<newline>    wire p%02dpin2;'' [I addr],
      Txt ''\<newline>    wire p%02dpin4;'' [I addr],
      Txt ''\<newline>    wire p%02dpin6;'' [I addr],
      Txt ''\<newline>    wire p%02dpin8;'' [I addr]] @
     printbus addr peri @
     [Txt ''    p%02du100clk, '' [I addr],
      Txt ''    p%02dpin2,p%02dpin4,p%02dpin6,p%02dpin8);\<newline>'' [I addr, I addr, I addr, I addr],
      Txt ''    assign p%02du100clk = bc0u100clk;\<newline>'' [I addr],
      PinOut startpin addr ''pin2'',
      PinOut (startpin + 1) addr ''pin4'',
      PinOut (startpin + 2) addr ''pin6'',
      PinOut (startpin + 3) addr ''pin8''],
     startpin + 4)"

definition io8 :: "cint \<Rightarrow> cint \<Rightarrow> string \<Rightarrow> wiring list \<times> cint" where
  "io8 addr startpin peri =
    ([Txt ''\<newline>    wire p%02du10clk;'' [I addr],
      Txt ''\<newline>    wire p%02dpin2;'' [I addr],
      Txt ''\<newline>    wire p%02dpin4;'' [I addr],
      Txt ''\<newline>    wire p%02dpin6;'' [I addr],
      Txt ''\<newline>    wire p%02dpin8;'' [I addr]] @
     printbus addr peri @
     [Txt ''    p%02du10clk, '' [I addr],
      Txt ''    p%02dpin2,p%02dpin4,p%02dpin6,p%02dpin8);\<newline>'' [I addr, I addr, I addr, I addr],
      Txt ''    assign p%02du10clk = bc0u10clk;\<newline>'' [I addr],
      PinOut startpin addr ''pin2'',
      PinOut (startpin + 1) addr ''pin4'',
      PinOut (startpin + 2) addr ''pin6'',
      PinIn addr ''pin8'' (startpin + 3)],
     startpin + 4)"

definition tif :: "cint \<Rightarrow> cint \<Rightarrow> string \<Rightarrow> wiring list \<times> cint" where
  "tif addr startpin peri =
    (printbus addr peri @
     [Txt ''    p%02du1clk, p%02dm10clk, '' [I addr, I addr],
      Txt ''    p%02dpin2,p%02dpin4,p%02dpin6,p%02dpin8);\<newline>'' [I addr, I addr, I addr, I addr],
      Txt ''    assign p%02du1clk = bc0u1clk;\<newline>'' [I addr],
      Txt ''    assign p%02dm10clk = bc0m10clk;\<newline>'' [I addr],
      PinOut startpin addr ''pin2'',
      PinOut (startpin + 1) addr ''pin4'',
      PinOut (startpin + 2) addr ''pin6'',
      PinIn addr ''pin8'' (startpin + 3)],
     startpin + 4)"

definition us8 :: "cint \<Rightarrow> cint \<Rightarrow> string \<Rightarrow> wiring list \<times> cint" where
  "us8 addr startpin peri =
    (printbus addr peri @
     [Txt ''    p%02dn100clk,p%02du10clk,p%02dm10clk, '' [I addr, I addr, I addr],
      Txt ''    p%02dpin2,p%02dpin4,p%02dpin6,p%02dpin8);\<newline>'' [I addr, I addr, I addr, I addr],
      Txt ''    assign p%02dn100clk = bc0n100clk;\<newline>'' [I addr],
      Txt ''    assign p%02du10clk = bc0u10clk;\<newline>'' [I addr],
      Txt ''    assign p%02dm10clk = bc0m10clk;\<newline>'' [I addr],
      PinOut startpin addr ''pin2'',
      PinOut (startpin + 1) addr ''pin4'',
      PinOut (startpin + 2) addr ''pin6'',
      PinIn addr ''pin8'' (startpin + 3)],
     startpin + 4)"

definition in32 :: "cint \<Rightarrow> cint \<Rightarrow> string \<Rightarrow> wiring list \<times> cint" where
  "in32 addr startpin peri =
    ([Txt ''\<newline>    wire p%02du10clk;'' [I addr],
      Txt ''\<newline>    wire p%02dpin2;'' [I addr],
      Txt ''\<newline>    wire p%02dpin4;'' [I addr],
      Txt ''\<newline>    wire p%02dpin6;'' [I addr],
      Txt ''\<newline>    wire p%02dpin8;'' [I addr]] @
     printbus addr peri @
     [Txt ''    p%02du10clk, '' [I addr],
      Txt ''    p%02dpin2,p%02dpin4,p%02dpin6,p%02dpin8);\<newline>'' [I addr, I addr, I addr, I addr],
      Txt ''    assign p%02du10clk = bc0u10clk;\<newline>'' [I addr],
      PinOut startpin addr ''pin2'',
      PinOut (startpin + 1) addr ''pin4'',
      PinOut (startpin + 2) addr ''pin6'',
      PinIn addr ''pin8'' (startpin + 3)],
     startpin + 4)"

definition ei2c :: "cint \<Rightarrow> cint \<Rightarrow> string \<Rightarrow> wiring list \<times> cint" where
  "ei2c addr pin peri =
    ([Txt ''\<newline>    wire p%02dpin2;'' [I addr],
      Txt ''\<newline>    wire p%02dpin4;'' [I addr],
      Txt ''\<newline>    wire p%02dpin6;'' [I addr],
      Txt ''\<newline>    wire p%02dpin8;'' [I addr]] @
     printbus addr ''ei2c'' @
     [Txt ''    p%02dpin2,p%02dpin4,p%02dpin6,p%02dpin8);\<newline>'' [I addr, I addr, I addr, I addr],
      PinOut (pin + 0) addr ''pin2'',
      PinOut (pin + 1) addr ''pin4'',
      PinOut (pin + 2) addr ''pin6'',
      PinIn addr ''pin8'' (pin + 3)],
     pin + 4)"

definition null_peri :: "cint \<Rightarrow> cint \<Rightarrow> string \<Rightarrow> wiring list \<times> cint" where
  "null_peri addr pin peri =
    ([Txt ''\<newline>    wire p%02ddummy;'' [I addr]] @
     printbus addr ''null'' @
     [Txt ''        p%02ddummy);\<newline>'' [I addr]],
     pin)"

subsection \<open>The table of peripherals\<close>

text \<open>
  The member \<open>invoke\<close> of the C struct is a function pointer; here it is the name
  of the function, and \<open>call\<close> applies it.
\<close>

datatype invoke_fn =
    Perilist
  | Bb4io
  | Servo4
  | Stepu
  | Stepb
  | Dc2
  | Pgen16
  | Quad2
  | Qtr4
  | Qtr8
  | Roten
  | Count4
  | Ping4
  | Irio
  | Rcrx
  | Rfob
  | Espi
  | Adc12
  | Out4
  | Out4l
  | Gpio4
  | Out32
  | Lcd6
  | In4
  | Io8
  | Tif
  | Us8
  | In32
  | Ei2c
  | Null
  | Ws2812

fun call :: "invoke_fn \<Rightarrow> cint \<Rightarrow> cint \<Rightarrow> string \<Rightarrow> wiring list \<times> cint" where
  "call Perilist = perilist"
| "call Bb4io = bb4io"
| "call Servo4 = servo4"
| "call Stepu = stepu"
| "call Stepb = stepb"
| "call Dc2 = dc2"
| "call Pgen16 = pgen16"
| "call Quad2 = quad2"
| "call Qtr4 = qtr4"
| "call Qtr8 = qtr8"
| "call Roten = roten"
| "call Count4 = count4"
| "call Ping4 = ping4"
| "call Irio = irio"
| "call Rcrx = rcrx"
| "call Rfob = rfob"
| "call Espi = espi"
| "call Adc12 = adc12"
| "call Out4 = out4"
| "call Out4l = out4l"
| "call Gpio4 = gpio4"
| "call Out32 = out32"
| "call Lcd6 = lcd6"
| "call In4 = in4"
| "call Io8 = io8"
| "call Tif = tif"
| "call Us8 = us8"
| "call In32 = in32"
| "call Ei2c = ei2c"
| "call Null = null_peri"
| "call Ws2812 = ws2812"

datatype ENUMERATORS =
  ENUMERATORS (periname: string) (incname: string) (libname: string) (invoke: invoke_fn)

definition enumerators :: "ENUMERATORS list" where
  "enumerators =
    [ENUMERATORS ''enumerator'' ''enumerator'' ''enumerator'' Perilist,
     ENUMERATORS ''bb4io'' ''bb4io'' ''bb4io'' Bb4io,
     ENUMERATORS ''servo4'' ''servo4'' ''servo4'' Servo4,
     ENUMERATORS ''stepu'' ''stepu'' ''stepu'' Stepu,
     ENUMERATORS ''stepb'' ''stepb'' ''stepb'' Stepb,
     ENUMERATORS ''dc2'' ''dc2'' ''dc2'' Dc2,
     ENUMERATORS ''aamp'' ''out4'' ''aamp'' Out4,
     ENUMERATORS ''pgen16'' ''pgen16'' ''pgen16'' Pgen16,
     ENUMERATORS ''pwmout4'' ''pgen16'' ''pwmout4'' Pgen16,
     ENUMERATORS ''quad2'' ''quad2'' ''quad2'' Quad2,
     ENUMERATORS ''qtr4'' ''qtr4'' ''qtr4'' Qtr4,
     ENUMERATORS ''qtr8'' ''qtr8'' ''qtr8'' Qtr8,
     ENUMERATORS ''roten'' ''roten'' ''roten'' Roten,
     ENUMERATORS ''count4'' ''count4'' ''count4'' Count4,
     ENUMERATORS ''touch4'' ''count4'' ''touch4'' Count4,
     ENUMERATORS ''ping4'' ''ping4'' ''ping4'' Ping4,
     ENUMERATORS ''irio'' ''irio'' ''irio'' Irio,
     ENUMERATORS ''espi'' ''espi'' ''espi'' Espi,
     ENUMERATORS ''dac8'' ''espi'' ''dac8'' Espi,
     ENUMERATORS ''qpot'' ''espi'' ''qpot'' Espi,
     ENUMERATORS ''rtc'' ''espi'' ''rtc'' Espi,
     ENUMERATORS ''avr'' ''espi'' ''avr'' Espi,
     ENUMERATORS ''adc812'' ''adc12'' ''adc812'' Adc12,
     ENUMERATORS ''slide4'' ''adc12'' ''slide4'' Adc12,
     ENUMERATORS ''out4'' ''out4'' ''out4'' Out4,
     ENUMERATORS ''out4l'' ''out4l'' ''out4l'' Out4l,
     ENUMERATORS ''ws2812'' ''ws2812'' ''ws2812'' Ws2812,
     ENUMERATORS ''rly4'' ''out4l'' ''rly4'' Out4l,
     ENUMERATORS ''drv4'' ''out4'' ''drv3'' Out4,
     ENUMERATORS ''hub4'' ''out4'' ''hub4'' Out4,
     ENUMERATORS ''gpio4'' ''gpio4'' ''gpio4'' Gpio4,
     ENUMERATORS ''out32'' ''out32'' ''out32'' Out32,
     ENUMERATORS ''lcd6'' ''lcd6'' ''lcd6'' Lcd6,
     ENUMERATORS ''in4'' ''in4'' ''in4'' In4,
     ENUMERATORS ''sw4'' ''in4'' ''sw4'' In4,
     ENUMERATORS ''io8'' ''io8'' ''io8'' Io8,
     ENUMERATORS ''tif'' ''tif'' ''tif'' Tif,
     ENUMERATORS ''us8'' ''us8'' ''us8'' Us8,
     ENUMERATORS ''in32'' ''in32'' ''in32'' In32,
     ENUMERATORS ''ei2c'' ''ei2c'' ''ei2c'' Ei2c,
     ENUMERATORS ''rcrx'' ''rcrx'' ''rcrx'' Rcrx,
     ENUMERATORS ''rfob'' ''rfob'' ''rfob'' Rfob,
     ENUMERATORS ''null'' ''null'' ''null'' Null]"

definition PERILEN :: nat where
  "PERILEN = 20"

definition ROMSTRLN :: nat where
  "ROMSTRLN = 256"

definition NPERI :: nat where
  "NPERI = length enumerators"

definition ENUMROMSZ :: nat where
  "ENUMROMSZ = 2048"

text \<open>
  The search loop of \<open>main\<close>:
  \<^verbatim>\<open>for (i = 0; i < NPERI; i++) if (0 == strncmp(peri, enumerators[i].periname, PERILEN - 1)) break;\<close>
  \<open>find_from i peri es\<close> runs it from index \<open>i\<close> over the remaining entries \<open>es\<close>
  and returns the final value of \<open>i\<close>, which is \<open>NPERI\<close> when nothing matched.
\<close>

fun find_from :: "nat \<Rightarrow> string \<Rightarrow> ENUMERATORS list \<Rightarrow> nat" where
  "find_from i peri [] = i"
| "find_from i peri (e # es) =
     (if strncmp_eq (PERILEN - 1) peri (periname e) then i else find_from (Suc i) peri es)"

definition find_peri :: "string \<Rightarrow> nat" where
  "find_peri peri = find_from 0 peri enumerators"

text \<open>The number of pins a function takes, read off the function itself.\<close>

definition pinCount :: "invoke_fn \<Rightarrow> cint" where
  "pinCount f = snd (call f 0 0 [])"

subsection \<open>The state of a run\<close>

text \<open>
  The local variables of \<open>main\<close> that outlive one statement, and the three output
  streams: \<open>stdout\<close> is the wiring (and the two messages that \<open>printf\<close> writes
  there), \<open>pincludes\<close> is the file
  \<open>includes.tmp\<close>, one line per element, and \<open>penumlst\<close> is the text of
  \<open>enumerator.lst\<close>.

  Three statements of \<open>main\<close> can write outside an array: \<open>romstr[strlen(romstr)-1]\<close>
  when the string is empty, \<open>fscanf(..., "%s", peri)\<close> when the token has more than
  \<open>PERILEN - 1\<close> characters, and \<open>sprintf\<close> into \<open>rom\<close> near its end. The C
  language does not define what the program does after such a write. Here the run goes
  on as the program does when the bytes next to the array are not used by anything else,
  and \<open>oob\<close> lists these writes: \<open>Before_romstr\<close> is the write to \<open>romstr[-1]\<close>,
  \<open>Beyond_peri n\<close> and \<open>Beyond_rom n\<close> are the writes of \<open>n\<close> bytes after the end of
  \<open>peri\<close> and of \<open>rom\<close>. A token can overrun \<open>peri\<close> by any number of bytes of
  any value.

  Two fields only log the run: \<open>calls\<close> has one element \<open>(i, slot, pin)\<close> for each
  call \<open>(enumerators[i].invoke)(slot, pin, peri)\<close>, and \<open>offsets\<close> has the value of
  \<open>romindx\<close> after each \<open>sprintf\<close> into the ROM image.
\<close>

datatype fatal = NotEnoughRomStrings | UnknownPeripheral string | RomOverflow

datatype oob_write = Before_romstr | Beyond_peri nat | Beyond_rom nat

record run =
  slot :: cint
  pin :: cint
  rom :: "char list"
  romindx :: nat
  stdout :: "wiring list"
  pincludes :: "string list"
  penumlst :: string
  oob :: "oob_write list"
  calls :: "(nat \<times> cint \<times> cint) list"
  offsets :: "nat list"

definition init :: run where
  "init = \<lparr>slot = 0, pin = 0, rom = replicate ENUMROMSZ NUL, romindx = 0, stdout = [],
           pincludes = [], penumlst = [], oob = [], calls = [], offsets = []\<rparr>"

subsection \<open>The ROM packer\<close>

text \<open>
  \<open>store mem i bs\<close> writes the bytes \<open>bs\<close> into the array \<open>mem\<close> from index
  \<open>i\<close> on; what falls beyond the end of the array is not stored.
\<close>

definition store :: "char list \<Rightarrow> nat \<Rightarrow> char list \<Rightarrow> char list" where
  "store mem i bs = take i mem @ take (length mem - i) bs @ drop (i + length bs) mem"

text \<open>
  \<^verbatim>\<open>romindx += sprintf(&(rom[romindx]), "%s%c", s, (char) 0);\<close>
  \<open>sprintf\<close> writes the string, the character 0 and its own terminating 0, and
  returns the number of characters before the terminator.
\<close>

definition rom_sprintf :: "run \<Rightarrow> string \<Rightarrow> run" where
  "rom_sprintf st s =
     (let bs = cstr s @ [NUL, NUL];
          n = strlen s + 1
      in st\<lparr>rom := store (rom st) (romindx st) bs,
            oob := oob st @ (if ENUMROMSZ < romindx st + length bs
                             then [Beyond_rom (romindx st + length bs - ENUMROMSZ)] else []),
            romindx := romindx st + n,
            offsets := offsets st @ [romindx st + n]\<rparr>)"

text \<open>
  \<open>fgets(romstr, n, f)\<close> reads at most \<open>n - 1\<close> characters and stops after a
  newline; it fails when the file is at its end. The result is the string read and
  the rest of the file.
\<close>

fun fgets_read :: "nat \<Rightarrow> string \<Rightarrow> string \<times> string" where
  "fgets_read 0 s = ([], s)"
| "fgets_read (Suc n) [] = ([], [])"
| "fgets_read (Suc n) (c # cs) =
     (if c = NL then ([c], cs)
      else (case fgets_read n cs of (l, r) \<Rightarrow> (c # l, r)))"

definition fgets :: "nat \<Rightarrow> string \<Rightarrow> (string \<times> string) option" where
  "fgets n s = (if s = [] then None else Some (fgets_read (n - 1) s))"

text \<open>
  The body of the header loop after a successful \<open>fgets\<close>:
  \<^verbatim>\<open>romstr[strlen(romstr)-1] = (char) 0;
  romindx += sprintf(&(rom[romindx]), "%s%c", romstr, (char) 0);\<close>
\<close>

definition header_line :: "run \<Rightarrow> string \<Rightarrow> run" where
  "header_line st romstr =
     (let n = strlen romstr
      in if n = 0 then rom_sprintf (st\<lparr>oob := oob st @ [Before_romstr]\<rparr>) []
         else rom_sprintf st (take (n - 1) romstr))"

text \<open>\<open>read_header j\<close> runs the remaining \<open>j\<close> rounds of the loop over the header lines.\<close>

fun read_header :: "nat \<Rightarrow> run \<Rightarrow> string \<Rightarrow> (fatal \<times> run) + (run \<times> string)" where
  "read_header 0 st s = Inr (st, s)"
| "read_header (Suc j) st s =
     (case fgets ROMSTRLN s of
        None \<Rightarrow> Inl (NotEnoughRomStrings, st\<lparr>stdout := stdout st @ [Txt ''Not enough ROM strings\<newline>'' []]\<rparr>)
      | Some (romstr, s') \<Rightarrow> read_header j (header_line st romstr) s')"

subsection \<open>The loop over the peripherals\<close>

text \<open>
  \<open>fscanf(pdescfile, "%s", peri)\<close> skips white space and reads up to the next white
  space; it returns \<open>EOF\<close> when the file ends before a token starts. On a file that
  is a finite sequence of bytes it returns nothing else, so the branch
  \<open>ret < 0\<close> of the source is never taken.
\<close>

definition fscanf_s :: "string \<Rightarrow> (string \<times> string) option" where
  "fscanf_s s =
     (let s1 = dropWhile isspace s
      in if s1 = [] then None
         else Some (takeWhile (\<lambda>c. \<not> isspace c) s1, dropWhile (\<lambda>c. \<not> isspace c) s1))"

definition is_comment :: "string \<Rightarrow> bool" where
  "is_comment peri = (case peri of [] \<Rightarrow> False | c # cs \<Rightarrow> c = CHR ''#'')"

definition include_line :: "string \<Rightarrow> string" where
  "include_line name = ''`include '' @ [CHR 0x22] @ name @ ''.v'' @ [CHR 0x22, NL]"

text \<open>
  One round of the loop, for the token \<open>tok\<close> that \<open>fscanf\<close> has read into
  \<open>peri\<close>: the result is the state for the next round, or the reason and the state
  of \<open>exit(1)\<close>. \<open>process st i peri\<close> is the part for a name found at index \<open>i\<close>,
  up to the append to the ROM image:
  \<^verbatim>\<open>pin = (enumerators[i].invoke)(slot, pin, peri);
  fprintf(pincludes, "`include \"%s.v\"\n", enumerators[i].incname);
  romindx += sprintf(&(rom[romindx]), "%s%c", enumerators[i].libname, (char) 0);\<close>
\<close>

definition process :: "run \<Rightarrow> nat \<Rightarrow> string \<Rightarrow> run" where
  "process st i peri =
     (let e = enumerators ! i;
          r = call (invoke e) (slot st) (pin st) peri;
          st2 = st\<lparr>pin := snd r, stdout := stdout st @ fst r,
                   calls := calls st @ [(i, slot st, pin st)]\<rparr>;
          st3 = st2\<lparr>pincludes := pincludes st2 @ [include_line (incname e)]\<rparr>
      in rom_sprintf st3 (libname e))"

text \<open>
  \<open>fscanf\<close> stores the token and a terminating NUL in \<open>peri\<close>, an array of
  \<open>PERILEN\<close> characters. The conversion \<open>%s\<close> has no field width, so a token of
  \<open>PERILEN\<close> or more characters is stored beyond the end of the array.
\<close>

definition into_peri :: "run \<Rightarrow> string \<Rightarrow> run" where
  "into_peri st tok =
     st\<lparr>oob := oob st @ (if PERILEN < length tok + 1
                           then [Beyond_peri (length tok + 1 - PERILEN)] else [])\<rparr>"

definition peripheral :: "run \<Rightarrow> string \<Rightarrow> (fatal \<times> run) + run" where
  "peripheral st tok =
     (let st1 = into_peri st tok;
          peri = cstr tok
      in if is_comment peri then Inr st1
         else
           let i = find_peri peri
           in if i = NPERI then Inl (UnknownPeripheral peri, st1)
              else
                let st4 = process st1 i peri
                in if romindx st4 > ENUMROMSZ
                   then Inl (RomOverflow,
                             st4\<lparr>stdout := stdout st4 @ [Txt ''Oops, Enumerator ROM overflow\<newline>'' []]\<rparr>)
                   else Inr (st4\<lparr>slot := slot st4 + 1\<rparr>))"

lemma fscanf_s_shorter: "fscanf_s s = Some (tok, s') \<Longrightarrow> length s' < length s"
proof -
  assume a: "fscanf_s s = Some (tok, s')"
  let ?s1 = "dropWhile isspace s"
  from a have ne: "?s1 \<noteq> []" and s': "s' = dropWhile (\<lambda>c. \<not> isspace c) ?s1"
    by (auto simp: fscanf_s_def Let_def split: if_splits)
  from ne have "\<not> isspace (hd ?s1)"
    by (simp add: hd_dropWhile)
  with ne have "length s' < length ?s1"
    unfolding s' by (cases ?s1) (auto simp: less_Suc_eq_le length_dropWhile_le)
  moreover have "length ?s1 \<le> length s"
    by (rule length_dropWhile_le)
  ultimately show ?thesis by simp
qed

function main_loop :: "run \<Rightarrow> string \<Rightarrow> (fatal \<times> run) + run" where
  "main_loop st s =
     (case fscanf_s s of
        None \<Rightarrow> Inr (st\<lparr>stdout := stdout st @ [Txt ''\<newline>endmodule\<newline>'' []]\<rparr>)
      | Some (tok, s') \<Rightarrow>
          (case peripheral st tok of
             Inl e \<Rightarrow> Inl e
           | Inr st' \<Rightarrow> main_loop st' s'))"
  by pat_completeness auto
termination
  by (relation "measure (\<lambda>(st, s). length s)") (auto dest: fscanf_s_shorter)

declare main_loop.simps [simp del]

subsection \<open>The ROM formatter\<close>

text \<open>
  \<open>rom\<close> is an array of \<open>char\<close>, and \<open>fprintf(penumlst, "%02x", rom[j])\<close> passes
  the character as an \<open>int\<close> that \<open>%x\<close> prints as an \<open>unsigned int\<close>. Whether
  \<open>char\<close> is signed is left to the C implementation, so it is the parameter \<open>schar\<close>
  of the formatter and of \<open>main\<close>: with a signed \<open>char\<close> (as on x86 with gcc) a byte
  from \<open>0x80\<close> on is a negative \<open>int\<close> (\<open>int\<close> has 32 bits).
\<close>

definition hexdigit :: "bool \<Rightarrow> nat \<Rightarrow> char" where
  "hexdigit upper d = (if upper then ''0123456789ABCDEF'' else ''0123456789abcdef'') ! d"

function hex :: "bool \<Rightarrow> int \<Rightarrow> string" where
  "hex upper n =
     (if n < 16 then [hexdigit upper (nat n)]
      else hex upper (n div 16) @ [hexdigit upper (nat (n mod 16))])"
  by pat_completeness auto
termination
  by (relation "measure (\<lambda>(upper, n). nat n)") auto

declare hex.simps [simp del]

text \<open>The conversions \<open>%02x\<close> and \<open>%02X\<close> of an \<open>unsigned int\<close>.\<close>

definition fmt_02x :: "bool \<Rightarrow> int \<Rightarrow> string" where
  "fmt_02x upper n = (let h = hex upper n in replicate (2 - length h) (CHR ''0'') @ h)"

text \<open>
  The value of a \<open>char\<close> as an \<open>int\<close>, and the \<open>unsigned int\<close> that \<open>%x\<close>
  reads where an \<open>int\<close> was passed.
\<close>

definition char_to_int :: "bool \<Rightarrow> char \<Rightarrow> int" where
  "char_to_int schar c =
     (let v = of_char c
      in if schar \<and> 128 \<le> v then v - 256 else v)"

definition as_unsigned :: "int \<Rightarrow> int" where
  "as_unsigned x = x mod 2 ^ 32"

definition init_payload :: "bool \<Rightarrow> char list \<Rightarrow> nat \<Rightarrow> string" where
  "init_payload schar mem i =
     concat (map (\<lambda>j. fmt_02x False (as_unsigned (char_to_int schar (mem ! j))))
                 (rev [32 * i ..< 32 * (i + 1)]))"

definition init_record :: "bool \<Rightarrow> char list \<Rightarrow> nat \<Rightarrow> string" where
  "init_record schar mem i =
     ''    .INIT_'' @ fmt_02x True (int i) @ ''(256'h'' @ init_payload schar mem i @
     (if i \<noteq> 15 then ''),\<newline>'' else '')\<newline>'')"

definition enumerator_lst :: "bool \<Rightarrow> char list \<Rightarrow> string" where
  "enumerator_lst schar mem = concat (map (init_record schar mem) [0 ..< 16])"

subsection \<open>The program\<close>

text \<open>
  \<open>main schar descfile\<close> is the run on the description file with the content
  \<open>descfile\<close>, once the three files are open: \<open>Inr st\<close> is \<open>exit(0)\<close> with the
  final state \<open>st\<close>, and \<open>Inl (e, st)\<close> is \<open>exit(1)\<close> for the reason \<open>e\<close>.
\<close>

definition main :: "bool \<Rightarrow> string \<Rightarrow> (fatal \<times> run) + run" where
  "main schar descfile =
     (case read_header 8 init descfile of
        Inl e \<Rightarrow> Inl e
      | Inr (st, s) \<Rightarrow>
          (case main_loop st s of
             Inl e \<Rightarrow> Inl e
           | Inr st' \<Rightarrow> Inr (st'\<lparr>penumlst := enumerator_lst schar (rom st')\<rparr>)))"

subsection \<open>What a run reads and prints\<close>

text \<open>
  The tokens of the rest of the file, as \<open>fscanf\<close> delivers them one after the other,
  and the peripheral names among them: the tokens as C strings, without the comments.
  A name is known when the search loop finds it in the table.
\<close>

function tokens :: "string \<Rightarrow> string list" where
  "tokens s =
     (case fscanf_s s of
        None \<Rightarrow> []
      | Some (tok, s') \<Rightarrow> tok # tokens s')"
  by pat_completeness auto
termination
  by (relation "measure length") (auto dest: fscanf_s_shorter)

declare tokens.simps [simp del]

definition names_of :: "string list \<Rightarrow> string list" where
  "names_of toks = filter (\<lambda>peri. \<not> is_comment peri) (map cstr toks)"

definition peri_names :: "string \<Rightarrow> string list" where
  "peri_names s = names_of (tokens s)"

definition known :: "string \<Rightarrow> bool" where
  "known peri = (find_peri peri \<noteq> NPERI)"

text \<open>
  A token fits the array \<open>peri\<close> when it has fewer than \<open>PERILEN\<close> characters:
  \<open>fscanf\<close> then stores it, with its terminating NUL, inside the array. What the
  program does after a longer token is not defined by the C language; the theorems on
  the calls of a run and on an unknown peripheral are stated for files whose tokens fit.
\<close>

definition fits_peri :: "string \<Rightarrow> bool" where
  "fits_peri tok = (length tok < PERILEN)"

text \<open>
  The rest of the file after \<open>j\<close> reads of the header loop, if there are as many;
  the part of the description file that follows the eight header reads; the strings
  that the header loop appends to the ROM image in \<open>j\<close> rounds.
\<close>

fun skip_header :: "nat \<Rightarrow> string \<Rightarrow> string option" where
  "skip_header 0 s = Some s"
| "skip_header (Suc j) s =
     (case fgets ROMSTRLN s of
        None \<Rightarrow> None
      | Some (romstr, s') \<Rightarrow> skip_header j s')"

definition after_header :: "string \<Rightarrow> string" where
  "after_header descfile =
     (case read_header 8 init descfile of Inl e \<Rightarrow> [] | Inr (st, s) \<Rightarrow> s)"

fun header_strings :: "nat \<Rightarrow> string \<Rightarrow> string list" where
  "header_strings 0 s = []"
| "header_strings (Suc j) s =
     (case fgets ROMSTRLN s of
        None \<Rightarrow> []
      | Some (romstr, s') \<Rightarrow>
          (if cstr romstr = [] then [] else butlast (cstr romstr)) # header_strings j s')"

text \<open>
  The descriptor of a peripheral name, the pin count of its function as \<open>main\<close>
  adds it to \<open>pin\<close> and as a number, the sum of the pin counts of the instances
  before instance \<open>k\<close> of a list of names, and the pins of instance \<open>k\<close> when it
  starts at this sum.
\<close>

definition entry_of :: "string \<Rightarrow> ENUMERATORS" where
  "entry_of peri = enumerators ! find_peri peri"

definition pinCount_of_name :: "string \<Rightarrow> cint" where
  "pinCount_of_name peri = pinCount (invoke (entry_of peri))"

definition pins_of_name :: "string \<Rightarrow> int" where
  "pins_of_name peri = sint (pinCount_of_name peri)"

definition pin_start :: "string list \<Rightarrow> nat \<Rightarrow> int" where
  "pin_start names k = sum_list (map pins_of_name (take k names))"

definition pin_range :: "string list \<Rightarrow> nat \<Rightarrow> int set" where
  "pin_range names k = {pin_start names k ..< pin_start names k + pins_of_name (names ! k)}"

text \<open>
  The calls that a list of peripheral names asks for, from the address \<open>a\<close> and the
  pin \<open>p\<close> on; the wiring that these calls print; the lines of \<open>includes.tmp\<close>;
  the closing marker of the wiring and the message of the ROM overflow.
\<close>

fun chain :: "cint \<Rightarrow> cint \<Rightarrow> string list \<Rightarrow> (nat \<times> cint \<times> cint) list" where
  "chain a p [] = []"
| "chain a p (n # ns) = (find_peri n, a, p) # chain (a + 1) (p + pinCount_of_name n) ns"

fun wiring_of :: "cint \<Rightarrow> cint \<Rightarrow> string list \<Rightarrow> wiring list" where
  "wiring_of a p [] = []"
| "wiring_of a p (n # ns) =
     fst (call (invoke (entry_of n)) a p n) @ wiring_of (a + 1) (p + pinCount_of_name n) ns"

definition includes_of :: "string list \<Rightarrow> string list" where
  "includes_of names = map (\<lambda>peri. include_line (incname (entry_of peri))) names"

definition endmodule :: wiring where
  "endmodule = Txt ''\<newline>endmodule\<newline>'' []"

definition overflow_message :: wiring where
  "overflow_message = Txt ''Oops, Enumerator ROM overflow\<newline>'' []"

text \<open>
  The bytes that header strings and the library names of peripheral names put into
  the ROM image, each string followed by NUL; the image that holds these bytes and
  zeros after them; chunk \<open>i\<close> of an image, its 32 bytes from the offset \<open>32 * i\<close> on.
\<close>

definition rom_content :: "string list \<Rightarrow> string list \<Rightarrow> char list" where
  "rom_content headers names =
     concat (map (\<lambda>h. h @ [NUL]) headers) @
     concat (map (\<lambda>peri. libname (entry_of peri) @ [NUL]) names)"

definition zero_filled :: "char list \<Rightarrow> char list" where
  "zero_filled bs = bs @ replicate (ENUMROMSZ - length bs) NUL"

definition chunk :: "char list \<Rightarrow> nat \<Rightarrow> char list" where
  "chunk mem i = take 32 (drop (32 * i) mem)"

text \<open>
  A header line that \<open>fgets\<close> reads whole has at most 254 characters, no newline and
  no NUL inside (the newline follows it in the file); \<open>text_lines hs\<close> is the text of
  the lines \<open>hs\<close>. \<open>plain_bytes schar bs\<close>: the formatter prints the bytes \<open>bs\<close>
  with two digits each, because \<open>char\<close> is unsigned or because none of them is
  \<open>0x80\<close> or more. The names of the table are C strings shorter than the bound of
  the comparison.
\<close>

definition plain_line :: "string \<Rightarrow> bool" where
  "plain_line h = (NL \<notin> set h \<and> NUL \<notin> set h \<and> length h \<le> 254)"

definition text_lines :: "string list \<Rightarrow> string" where
  "text_lines hs = concat (map (\<lambda>h. h @ [NL]) hs)"

definition plain_bytes :: "bool \<Rightarrow> char list \<Rightarrow> bool" where
  "plain_bytes schar bs = (\<not> schar \<or> list_all (\<lambda>c. (of_char c :: int) < 128) bs)"

definition short_names :: "ENUMERATORS list \<Rightarrow> bool" where
  "short_names es =
     list_all (\<lambda>e. NUL \<notin> set (periname e) \<and> length (periname e) < PERILEN - 1) es"

text \<open>
  The loop over the peripherals as a recursion over the tokens it reads; what the
  header loop leaves, whether it ends or stops for want of a line; the last state of
  a run, whether it ends with \<open>exit(0)\<close> or with \<open>exit(1)\<close>.
\<close>

fun run_tokens :: "run \<Rightarrow> string list \<Rightarrow> (fatal \<times> run) + run" where
  "run_tokens st [] = Inr st"
| "run_tokens st (tok # toks) =
     (case peripheral st tok of
        Inl e \<Rightarrow> Inl e
      | Inr st' \<Rightarrow> run_tokens st' toks)"

definition header_run :: "(fatal \<times> run) + (run \<times> string) \<Rightarrow> fatal option \<times> run" where
  "header_run r = (case r of Inl (e, st) \<Rightarrow> (Some e, st) | Inr (st, s) \<Rightarrow> (None, st))"

definition final :: "(fatal \<times> run) + run \<Rightarrow> run" where
  "final r = (case r of Inl (e, st) \<Rightarrow> st | Inr st \<Rightarrow> st)"

text \<open>
  \<open>advanced st names st'\<close> relates the state before the rounds of the loop for the
  peripheral names \<open>names\<close> to the state after them, when all of them were found
  and none overflowed the ROM. \<open>stopped st tok r\<close>: the round for the token \<open>tok\<close>,
  begun in the state \<open>st\<close>, ends the run with \<open>r\<close>, for an unknown name or for a
  ROM overflow.
\<close>

definition advanced :: "run \<Rightarrow> string list \<Rightarrow> run \<Rightarrow> bool" where
  "advanced st names st' \<longleftrightarrow>
     slot st' = slot st + of_nat (length names)
     \<and> pin st' = pin st + sum_list (map pinCount_of_name names)
     \<and> calls st' = calls st @ chain (slot st) (pin st) names
     \<and> pincludes st' = pincludes st @ includes_of names
     \<and> penumlst st' = penumlst st
     \<and> stdout st' = stdout st @ wiring_of (slot st) (pin st) names
     \<and> (\<exists>xs. offsets st' = offsets st @ xs \<and> length xs = length names
              \<and> (\<forall>x \<in> set xs. x \<le> ENUMROMSZ))
     \<and> romindx st' = romindx st + length (rom_content [] names)
     \<and> (romindx st \<le> ENUMROMSZ \<longrightarrow> romindx st' \<le> ENUMROMSZ)
     \<and> length (rom st') = length (rom st)
     \<and> (\<forall>c. rom st = zero_filled c \<and> romindx st = length c \<and> romindx st' \<le> ENUMROMSZ \<longrightarrow>
              rom st' = zero_filled (c @ rom_content [] names))"

definition stopped :: "run \<Rightarrow> string \<Rightarrow> fatal \<times> run \<Rightarrow> bool" where
  "stopped st tok r =
     (let n = cstr tok;
          st4 = process (into_peri st tok) (find_peri n) n
      in \<not> is_comment n \<and>
         (if known n
          then ENUMROMSZ < romindx st4 \<and>
               r = (RomOverflow, st4\<lparr>stdout := stdout st4 @ [overflow_message]\<rparr>)
          else r = (UnknownPeripheral n, into_peri st tok)))"

subsection \<open>Notions of the specification\<close>

text \<open>
  The lookup of the specification: the first entry whose name is equal to the token.
\<close>

definition resolve :: "string \<Rightarrow> ENUMERATORS option" where
  "resolve name = List.find (\<lambda>e. periname e = name) enumerators"

text \<open>
  The packer as the specification words it: the offset is compared with the capacity
  after every append, also after each of the header lines.
\<close>

fun read_header_checked :: "nat \<Rightarrow> run \<Rightarrow> string \<Rightarrow> (fatal \<times> run) + (run \<times> string)" where
  "read_header_checked 0 st s = Inr (st, s)"
| "read_header_checked (Suc j) st s =
     (case fgets ROMSTRLN s of
        None \<Rightarrow> Inl (NotEnoughRomStrings, st\<lparr>stdout := stdout st @ [Txt ''Not enough ROM strings\<newline>'' []]\<rparr>)
      | Some (romstr, s') \<Rightarrow>
          (let st' = header_line st romstr
           in if romindx st' > ENUMROMSZ
              then Inl (RomOverflow,
                        st'\<lparr>stdout := stdout st' @ [Txt ''Oops, Enumerator ROM overflow\<newline>'' []]\<rparr>)
              else read_header_checked j st' s'))"

definition main_checked :: "bool \<Rightarrow> string \<Rightarrow> (fatal \<times> run) + run" where
  "main_checked schar descfile =
     (case read_header_checked 8 init descfile of
        Inl e \<Rightarrow> Inl e
      | Inr (st, s) \<Rightarrow>
          (case main_loop st s of
             Inl e \<Rightarrow> Inl e
           | Inr st' \<Rightarrow> Inr (st'\<lparr>penumlst := enumerator_lst schar (rom st')\<rparr>)))"

text \<open>
  The ROM image as the specification describes it: the first eight lines of the file,
  each without its terminator and followed by NUL, then the library name of each
  peripheral name that follows these lines, each followed by NUL, then zeros up to
  the size of the ROM.
\<close>

fun first_lines :: "nat \<Rightarrow> string \<Rightarrow> string list \<times> string" where
  "first_lines 0 s = ([], s)"
| "first_lines (Suc n) s =
     (case first_lines n (drop 1 (dropWhile (\<lambda>c. c \<noteq> NL) s)) of
        (ls, r) \<Rightarrow> (takeWhile (\<lambda>c. c \<noteq> NL) s # ls, r))"

definition spec_rom :: "string \<Rightarrow> char list" where
  "spec_rom descfile =
     (case first_lines 8 descfile of
        (headers, s) \<Rightarrow> zero_filled (rom_content headers (peri_names s)))"

text \<open>
  The decoder of a record of the ROM listing as the specification describes it: the
  payload is parsed into bytes, two hexadecimal digits each; there must be 32 of them;
  their order is reversed. The decoded records are concatenated.
\<close>

definition hexval :: "char \<Rightarrow> nat option" where
  "hexval c =
     (let v = (of_char c :: nat)
      in if 48 \<le> v \<and> v \<le> 57 then Some (v - 48)
         else if 97 \<le> v \<and> v \<le> 102 then Some (v - 87)
         else if 65 \<le> v \<and> v \<le> 70 then Some (v - 55)
         else None)"

fun unhex :: "string \<Rightarrow> char list option" where
  "unhex [] = Some []"
| "unhex [a] = None"
| "unhex (a # b # cs) =
     (case (hexval a, hexval b, unhex cs) of
        (Some x, Some y, Some bs) \<Rightarrow> Some (char_of (16 * x + y) # bs)
      | _ \<Rightarrow> None)"

definition decode_record :: "string \<Rightarrow> char list option" where
  "decode_record payload =
     (case unhex payload of
        None \<Rightarrow> None
      | Some bs \<Rightarrow> if length bs = 32 then Some (rev bs) else None)"

fun decode_all :: "string list \<Rightarrow> char list option" where
  "decode_all [] = Some []"
| "decode_all (p # ps) =
     (case (decode_record p, decode_all ps) of
        (Some bs, Some rest) \<Rightarrow> Some (bs @ rest)
      | _ \<Rightarrow> None)"

subsection \<open>Description files used below\<close>

text \<open>Eight header lines, two peripherals and a comment.\<close>

definition f1 :: string where
  "f1 = ''a\<newline>b\<newline>c\<newline>d\<newline>e\<newline>f\<newline>g\<newline>h\<newline>servo4\<newline>#x null\<newline>''"

text \<open>Eight header lines and one peripheral.\<close>

definition f8 :: string where
  "f8 = ''a\<newline>b\<newline>c\<newline>d\<newline>e\<newline>f\<newline>g\<newline>h\<newline>servo4\<newline>''"

text \<open>A file that ends in the middle of its first line.\<close>

definition f9 :: string where
  "f9 = ''abc''"

text \<open>
  Eight header lines of 254 characters, which fill the ROM image up to the offset
  2040, then the peripheral \<open>enumerator\<close> and a name that is not in the table.
\<close>

definition f_full :: string where
  "f_full = text_lines (replicate 8 (replicate 254 (CHR ''x''))) @ ''enumerator bogus\<newline>''"

text \<open>Eight header lines, a peripheral, a name that is not in the table, a peripheral.\<close>

definition f_unknown :: string where
  "f_unknown = ''a\<newline>b\<newline>c\<newline>d\<newline>e\<newline>f\<newline>g\<newline>h\<newline>servo4\<newline>foo\<newline>null\<newline>''"

text \<open>
  A first line of 300 characters, six short lines and an empty eighth line; no
  peripheral.
\<close>

definition f_long :: string where
  "f_long = replicate 300 (CHR ''x'') @ ''\<newline>b\<newline>c\<newline>d\<newline>e\<newline>f\<newline>g\<newline>\<newline>''"

text \<open>
  Eight header lines of 100 characters and one peripheral: 813 bytes of the ROM image
  are used.
\<close>

definition f_big :: string where
  "f_big = text_lines (replicate 8 (replicate 100 (CHR ''x''))) @ ''null\<newline>''"

text \<open>
  A first header line that is the one byte \<open>0xE9\<close> (the letter e with an acute accent
  in ISO 8859-1), seven more header lines, no peripheral.
\<close>

definition f_latin1 :: string where
  "f_latin1 = CHR 0xE9 # ''\<newline>b\<newline>c\<newline>d\<newline>e\<newline>f\<newline>g\<newline>h\<newline>''"

section \<open>Properties\<close>

subsection \<open>The registry lookup\<close>

lemma strncmp_eq_iff:
  "NUL \<notin> set a \<Longrightarrow> NUL \<notin> set b \<Longrightarrow> length b < n \<Longrightarrow> strncmp_eq n a b = (a = b)"
  by (induction n a b rule: strncmp_eq.induct) auto

lemma short_names_enumerators: "short_names enumerators"
  by (simp add: short_names_def enumerators_def NUL_def PERILEN_def)

lemma find_from_takeWhile:
  "NUL \<notin> set tok \<Longrightarrow> short_names es \<Longrightarrow>
   find_from i tok es = i + length (takeWhile (\<lambda>e. periname e \<noteq> tok) es)"
  by (induction es arbitrary: i) (auto simp: short_names_def strncmp_eq_iff)

lemma find_peri_takeWhile:
  "NUL \<notin> set tok \<Longrightarrow>
   find_peri tok = length (takeWhile (\<lambda>e. periname e \<noteq> tok) enumerators)"
  by (simp add: find_peri_def find_from_takeWhile short_names_enumerators)

lemma find_takeWhile:
  "List.find P xs =
     (let k = length (takeWhile (\<lambda>x. \<not> P x) xs)
      in if k = length xs then None else Some (xs ! k))"
  by (induction xs) (auto simp: Let_def)

lemma takeWhile_less_iff:
  "length (takeWhile (\<lambda>x. \<not> P x) xs) < length xs \<longleftrightarrow> (\<exists>x \<in> set xs. P x)"
  by (induction xs) auto

lemma takeWhile_before:
  "j < length (takeWhile (\<lambda>x. \<not> P x) xs) \<Longrightarrow> \<not> P (xs ! j)"
  by (induction xs arbitrary: j) (auto simp: nth_Cons split: nat.splits if_splits)

lemma takeWhile_first:
  "length (takeWhile (\<lambda>x. \<not> P x) xs) < length xs \<Longrightarrow>
   P (xs ! length (takeWhile (\<lambda>x. \<not> P x) xs))"
  using nth_length_takeWhile[of "\<lambda>x. \<not> P x" xs] by simp

lemma find_peri_le: "NUL \<notin> set tok \<Longrightarrow> find_peri tok \<le> NPERI"
  by (simp add: find_peri_takeWhile NPERI_def length_takeWhile_le)

lemma find_peri_found:
  "NUL \<notin> set tok \<Longrightarrow> find_peri tok \<noteq> NPERI \<Longrightarrow>
   find_peri tok < NPERI \<and> periname (enumerators ! find_peri tok) = tok"
  using takeWhile_first[of "\<lambda>e. periname e = tok" enumerators]
    length_takeWhile_le[of "\<lambda>e. periname e \<noteq> tok" enumerators]
  by (simp add: find_peri_takeWhile NPERI_def)

text \<open>
  Claim C6. The lookup of the code, a \<open>strncmp\<close> bounded to \<open>PERILEN - 1 = 19\<close>
  characters over the table in its order, is the exact lookup of the specification:
  for a token that is a C string (it has no NUL inside), the loop ends at an index
  below \<open>NPERI\<close> exactly when the token is equal to the name of some entry, the entry
  found is the first one with that name, and no entry before it has the name. An entry
  of which the token is a strict prefix or a strict extension does not match.
\<close>

theorem C6_lookup_is_exact_match:
  assumes "NUL \<notin> set tok"
  shows "(if find_peri tok = NPERI then None else Some (enumerators ! find_peri tok)) = resolve tok
       \<and> find_peri tok \<le> NPERI
       \<and> (find_peri tok < NPERI \<longleftrightarrow> (\<exists>e \<in> set enumerators. periname e = tok))
       \<and> (find_peri tok < NPERI \<longrightarrow> periname (enumerators ! find_peri tok) = tok)
       \<and> (\<forall>j < find_peri tok. periname (enumerators ! j) \<noteq> tok)
       \<and> (\<forall>e \<in> set enumerators.
             strict_prefix tok (periname e) \<or> strict_prefix (periname e) tok \<longrightarrow>
             \<not> strncmp_eq (PERILEN - 1) tok (periname e))"
proof -
  let ?k = "length (takeWhile (\<lambda>e. periname e \<noteq> tok) enumerators)"
  have k: "find_peri tok = ?k"
    using assms by (rule find_peri_takeWhile)
  have 1: "(if find_peri tok = NPERI then None else Some (enumerators ! find_peri tok)) = resolve tok"
    by (simp add: k NPERI_def resolve_def find_takeWhile Let_def)
  have 2: "find_peri tok \<le> NPERI"
    by (simp add: k NPERI_def length_takeWhile_le)
  have 3: "find_peri tok < NPERI \<longleftrightarrow> (\<exists>e \<in> set enumerators. periname e = tok)"
    unfolding k NPERI_def
    using takeWhile_less_iff[of "\<lambda>e. periname e = tok" enumerators] by simp
  have 4: "find_peri tok < NPERI \<longrightarrow> periname (enumerators ! find_peri tok) = tok"
    unfolding k NPERI_def
    using takeWhile_first[of "\<lambda>e. periname e = tok" enumerators] by simp
  have 5: "\<forall>j < find_peri tok. periname (enumerators ! j) \<noteq> tok"
    unfolding k
    using takeWhile_before[of _ "\<lambda>e. periname e = tok" enumerators] by simp
  have 6: "\<forall>e \<in> set enumerators.
             strict_prefix tok (periname e) \<or> strict_prefix (periname e) tok \<longrightarrow>
             \<not> strncmp_eq (PERILEN - 1) tok (periname e)"
  proof
    fix e assume e: "e \<in> set enumerators"
    with short_names_enumerators
    have "NUL \<notin> set (periname e)" and "length (periname e) < PERILEN - 1"
      by (auto simp: short_names_def list_all_iff)
    with assms have "strncmp_eq (PERILEN - 1) tok (periname e) = (tok = periname e)"
      by (simp add: strncmp_eq_iff)
    then show "strict_prefix tok (periname e) \<or> strict_prefix (periname e) tok \<longrightarrow>
               \<not> strncmp_eq (PERILEN - 1) tok (periname e)"
      by auto
  qed
  from 1 2 3 4 5 6 show ?thesis by blast
qed

theorem C6_lookup_is_exact_match_witness:
  "NUL \<notin> set ''out4''
   \<and> (if find_peri ''out4'' = NPERI then None else Some (enumerators ! find_peri ''out4''))
       = resolve ''out4''
   \<and> find_peri ''out4'' = 24 \<and> periname (enumerators ! 24) = ''out4''
   \<and> periname (enumerators ! 25) = ''out4l''"
proof -
  have h: "NUL \<notin> set ''out4''"
    by (simp add: NUL_def)
  have f: "find_peri ''out4'' = 24"
    unfolding find_peri_takeWhile [OF h] by (simp add: enumerators_def)
  have n: "periname (enumerators ! 24) = ''out4''" "periname (enumerators ! 25) = ''out4l''"
    by (simp_all add: enumerators_def)
  from C6_lookup_is_exact_match [OF h]
  have "(if find_peri ''out4'' = NPERI then None else Some (enumerators ! find_peri ''out4''))
        = resolve ''out4''"
    by (rule conjunct1)
  with h f n show ?thesis
    by (intro conjI)
qed

subsection \<open>The invocation functions\<close>

lemmas invoke_defs =
  perilist_def bb4io_def stepu_def stepb_def dc2_def pgen16_def quad2_def qtr4_def qtr8_def
  roten_def count4_def servo4_def ping4_def irio_def rcrx_def rfob_def espi_def adc12_def
  ws2812_def out4_def out4l_def gpio4_def in4_def out32_def lcd6_def io8_def tif_def us8_def
  in32_def ei2c_def null_peri_def

lemma extpins_printbus [simp]: "extpins (printbus a peri @ ws) = extpins ws"
  by (simp add: extpins_def printbus_def)

lemma extpins_Cons [simp]: "extpins (w # ws) = pins_of w @ extpins ws"
  by (simp add: extpins_def)

lemma extpins_Nil [simp]: "extpins [] = []"
  by (simp add: extpins_def)

lemma call_next_pin: "snd (call f addr p peri) = p + pinCount f"
  by (cases f) (simp_all add: pinCount_def invoke_defs)

lemma pinCount_cases: "pinCount f = 0 \<or> pinCount f = 4 \<or> pinCount f = 8"
  by (cases f) (simp_all add: pinCount_def invoke_defs)

lemma pinCount_range: "0 \<le> sint (pinCount f) \<and> sint (pinCount f) \<le> 8"
  using pinCount_cases[of f] by auto

lemma call_extpins:
  "extpins (fst (call f addr p peri)) = map (\<lambda>k. p + of_nat k) [0..<nat (sint (pinCount f))]"
  by (cases f) (simp_all add: pinCount_def invoke_defs upt_rec)

lemma sint_add_small:
  fixes p c :: cint
  assumes "0 \<le> sint c" and "sint p + sint c \<le> INT_MAX"
  shows "sint (p + c) = sint p + sint c"
proof -
  have "- (2 ^ 31) \<le> sint p"
    using sint_ge[of p] by simp
  with assms have "- (2 ^ 31) \<le> sint p + sint c" "sint p + sint c < 2 ^ 31"
    by (simp_all add: INT_MAX_def)
  then show ?thesis
    by (simp add: sint_word_add signed_take_bit_int_eq_self)
qed

lemma sint_of_int_small:
  "- (2 ^ 31) \<le> x \<Longrightarrow> x < 2 ^ 31 \<Longrightarrow> sint (word_of_int x :: cint) = x"
  by (simp add: sint_sbintrunc' signed_take_bit_int_eq_self)

lemma sint_of_nat_small: "k < 2 ^ 31 \<Longrightarrow> sint (of_nat k :: cint) = int k"
  using sint_of_int_small[of "int k"] by simp

text \<open>
  As compiled for a 32-bit \<open>int\<close>, \<open>qtr8\<close> called with the pin \<open>INT_MAX - 2\<close>
  returns a negative number.
\<close>

lemma qtr8_wraps: "sint (snd (qtr8 0 2147483645 ''q'')) = - 2147483643"
  by (simp add: qtr8_def)

text \<open>
  Claim C7. Every invocation function of the table returns the pin it was given plus
  a number \<open>pinCount\<close> that depends on the function only (not on the address, the
  pin or the name) and lies between 0 and 8; \<open>perilist\<close>, \<open>bb4io\<close> and \<open>null\<close>
  take no pin; and the pins in the assignments the function prints are, in the order
  printed, \<open>pin, pin + 1, ..., pin + pinCount - 1\<close>. The sums are those of the type
  \<open>int\<close> of the program, for every value of the address and of the pin; when
  \<open>pin + pinCount\<close> does not exceed \<open>INT_MAX\<close> they are the sums of the numbers.
\<close>

theorem C7_emit_returns_pin_plus_pinCount:
  "snd (call f addr p peri) = p + pinCount f
   \<and> 0 \<le> sint (pinCount f) \<and> sint (pinCount f) \<le> 8
   \<and> extpins (fst (call f addr p peri)) = map (\<lambda>k. p + of_nat k) [0..<nat (sint (pinCount f))]
   \<and> pinCount Perilist = 0 \<and> pinCount Bb4io = 0 \<and> pinCount Null = 0
   \<and> pinCount Qtr8 = 8
   \<and> (sint p + sint (pinCount f) \<le> INT_MAX \<longrightarrow>
        sint (snd (call f addr p peri)) = sint p + sint (pinCount f)
        \<and> map sint (extpins (fst (call f addr p peri)))
            = map (\<lambda>k. sint p + int k) [0..<nat (sint (pinCount f))])"
proof -
  have 1: "snd (call f addr p peri) = p + pinCount f"
    by (rule call_next_pin)
  note 2 = pinCount_range[of f]
  have 3: "extpins (fst (call f addr p peri)) = map (\<lambda>k. p + of_nat k) [0..<nat (sint (pinCount f))]"
    by (rule call_extpins)
  have 4: "pinCount Perilist = 0" "pinCount Bb4io = 0" "pinCount Null = 0" "pinCount Qtr8 = 8"
    by (simp_all add: pinCount_def invoke_defs)
  have 5: "sint (snd (call f addr p peri)) = sint p + sint (pinCount f)
        \<and> map sint (extpins (fst (call f addr p peri)))
            = map (\<lambda>k. sint p + int k) [0..<nat (sint (pinCount f))]"
    if r: "sint p + sint (pinCount f) \<le> INT_MAX"
  proof
    from 2 r show "sint (snd (call f addr p peri)) = sint p + sint (pinCount f)"
      by (simp add: 1 sint_add_small)
    have "sint (p + of_nat k) = sint p + int k" if k: "k < nat (sint (pinCount f))" for k
    proof -
      from k 2 have "k < 8" by linarith
      then have k8: "k < 2 ^ 31" by simp
      then have s: "sint (of_nat k :: cint) = int k"
        by (rule sint_of_nat_small)
      from k r have "sint p + sint (of_nat k :: cint) \<le> INT_MAX"
        by (simp add: s)
      then show ?thesis
        using sint_add_small[of "of_nat k" p] by (simp add: s)
    qed
    then show "map sint (extpins (fst (call f addr p peri)))
            = map (\<lambda>k. sint p + int k) [0..<nat (sint (pinCount f))]"
      by (simp add: 3)
  qed
  from 1 2 3 4 5 show ?thesis
    by blast
qed

theorem C7_emit_returns_pin_plus_pinCount_witness:
  "sint (5 :: cint) + sint (pinCount Qtr8) \<le> INT_MAX
   \<and> sint (snd (call Qtr8 0 5 ''qtr8'')) = 13
   \<and> map sint (extpins (fst (call Qtr8 0 5 ''qtr8''))) = [5, 6, 7, 8, 9, 10, 11, 12]"
proof -
  have c: "pinCount Qtr8 = 8"
    by (simp add: pinCount_def qtr8_def)
  then have r: "sint (5 :: cint) + sint (pinCount Qtr8) \<le> INT_MAX"
    by (simp add: INT_MAX_def)
  from C7_emit_returns_pin_plus_pinCount [of Qtr8 0 5 "''qtr8''"] r
  have "sint (snd (call Qtr8 0 5 ''qtr8'')) = sint (5 :: cint) + sint (pinCount Qtr8)"
    "map sint (extpins (fst (call Qtr8 0 5 ''qtr8'')))
       = map (\<lambda>k. sint (5 :: cint) + int k) [0..<nat (sint (pinCount Qtr8))]"
    by blast+
  with r show ?thesis
    by (simp add: c upt_rec)
qed

subsection \<open>The header lines\<close>

lemma strlen_le: "strlen buf \<le> length buf"
  by (simp add: strlen_def cstr_def length_takeWhile_le)

lemma cstr_no_NUL: "NUL \<notin> set s \<Longrightarrow> cstr s = s"
  by (auto simp: cstr_def)

lemma NUL_notin_cstr: "NUL \<notin> set (cstr s)"
  by (auto simp: cstr_def dest: set_takeWhileD)

lemma take_strlen: "take (strlen buf - 1) buf = butlast (cstr buf)"
proof -
  have "buf = cstr buf @ dropWhile (\<lambda>c. c \<noteq> NUL) buf"
    by (simp add: cstr_def)
  then have "take (strlen buf - 1) buf = take (length (cstr buf) - 1) (cstr buf @ dropWhile (\<lambda>c. c \<noteq> NUL) buf)"
    by (simp add: strlen_def)
  then show ?thesis
    by (simp add: butlast_conv_take)
qed

lemma cstr_butlast_cstr: "cstr (butlast (cstr buf)) = butlast (cstr buf)"
  by (rule cstr_no_NUL) (meson NUL_notin_cstr in_set_butlastD)

lemma header_line_eq:
  "header_line st romstr =
     (if cstr romstr = [] then rom_sprintf (st\<lparr>oob := oob st @ [Before_romstr]\<rparr>) []
      else rom_sprintf st (butlast (cstr romstr)))"
  using take_strlen[of romstr] by (simp add: header_line_def Let_def strlen_def)

lemma length_store [simp]: "length (store mem i bs) = length mem"
  by (simp add: store_def)

lemma romindx_rom_sprintf [simp]: "romindx (rom_sprintf st s) = romindx st + strlen s + 1"
  by (simp add: rom_sprintf_def Let_def)

lemma offsets_rom_sprintf [simp]:
  "offsets (rom_sprintf st s) = offsets st @ [romindx st + strlen s + 1]"
  by (simp add: rom_sprintf_def Let_def)

lemma rom_sprintf_fields [simp]:
  "slot (rom_sprintf st s) = slot st" "pin (rom_sprintf st s) = pin st"
  "stdout (rom_sprintf st s) = stdout st" "pincludes (rom_sprintf st s) = pincludes st"
  "penumlst (rom_sprintf st s) = penumlst st" "calls (rom_sprintf st s) = calls st"
  "length (rom (rom_sprintf st s)) = length (rom st)"
  by (simp_all add: rom_sprintf_def Let_def)

lemma fgets_read_length: "fgets_read n s = (buf, s') \<Longrightarrow> length buf \<le> n \<and> s = buf @ s'"
  by (induction n s arbitrary: buf s' rule: fgets_read.induct) (auto split: if_splits prod.splits)

lemma fgets_length:
  "fgets ROMSTRLN s = Some (buf, s') \<Longrightarrow> buf \<noteq> [] \<and> length buf \<le> 255 \<and> s = buf @ s'"
  by (cases s) (auto simp: fgets_def ROMSTRLN_def dest!: fgets_read_length split: if_splits prod.splits
      simp: numeral_eq_Suc)

lemma header_line_romindx:
  "length buf \<le> 255 \<Longrightarrow> romindx (header_line st buf) \<le> romindx st + 255"
  using strlen_le[of buf]
  by (auto simp: header_line_eq strlen_def cstr_butlast_cstr cstr_def[of "[]"])

lemma header_line_fields [simp]:
  "slot (header_line st b) = slot st" "pin (header_line st b) = pin st"
  "stdout (header_line st b) = stdout st" "pincludes (header_line st b) = pincludes st"
  "penumlst (header_line st b) = penumlst st" "calls (header_line st b) = calls st"
  "length (rom (header_line st b)) = length (rom st)"
  by (simp_all add: header_line_eq)

lemma header_line_offsets:
  "offsets (header_line st b) = offsets st @ [romindx (header_line st b)]"
  by (simp add: header_line_eq)

lemma header_line_oob:
  "length b \<le> 255 \<Longrightarrow> romindx st + 256 \<le> ENUMROMSZ \<Longrightarrow>
   \<exists>ws. oob (header_line st b) = oob st @ ws \<and> set ws \<subseteq> {Before_romstr}"
  using strlen_le[of b]
  by (auto simp: header_line_eq rom_sprintf_def Let_def strlen_def cstr_butlast_cstr cstr_def[of "[]"])

lemma read_header_bound:
  "read_header j st s = r \<Longrightarrow> header_run r = (e, st') \<Longrightarrow>
   romindx st' \<le> romindx st + 255 * j
   \<and> (\<exists>xs. offsets st' = offsets st @ xs \<and> (\<forall>x \<in> set xs. x \<le> romindx st + 255 * j)
            \<and> (e = None \<longrightarrow> length xs = j))
   \<and> (e = None \<or> e = Some NotEnoughRomStrings)
   \<and> slot st' = slot st \<and> pin st' = pin st \<and> calls st' = calls st
   \<and> pincludes st' = pincludes st \<and> penumlst st' = penumlst st
   \<and> length (rom st') = length (rom st)
   \<and> (e = None \<longrightarrow> stdout st' = stdout st)"
proof (induction j arbitrary: st s r)
  case 0
  then show ?case by (auto simp: header_run_def)
next
  case (Suc j)
  show ?case
  proof (cases "fgets ROMSTRLN s")
    case None
    with Suc.prems show ?thesis by (auto simp: header_run_def)
  next
    case (Some a)
    obtain b s' where a: "a = (b, s')" by (cases a)
    from Some a have len: "length b \<le> 255" by (auto dest: fgets_length)
    from Suc.prems Some a have r: "read_header j (header_line st b) s' = r" by simp
    note ih = Suc.IH[OF r Suc.prems(2)]
    from header_line_romindx[OF len, of st]
    have step: "romindx (header_line st b) \<le> romindx st + 255" .
    from ih obtain xs where xs: "offsets st' = offsets (header_line st b) @ xs"
      "\<forall>x \<in> set xs. x \<le> romindx (header_line st b) + 255 * j" "e = None \<longrightarrow> length xs = j"
      by blast
    have "offsets st' = offsets st @ (romindx (header_line st b) # xs)"
      using xs(1) by (simp add: header_line_offsets)
    moreover have "\<forall>x \<in> set (romindx (header_line st b) # xs). x \<le> romindx st + 255 * Suc j"
      using xs(2) step by auto
    moreover have "e = None \<longrightarrow> length (romindx (header_line st b) # xs) = Suc j"
      using xs(3) by simp
    ultimately have "\<exists>xs. offsets st' = offsets st @ xs \<and> (\<forall>x \<in> set xs. x \<le> romindx st + 255 * Suc j)
            \<and> (e = None \<longrightarrow> length xs = Suc j)" by blast
    moreover have "romindx st' \<le> romindx st + 255 * Suc j"
      using ih step by simp
    ultimately show ?thesis using ih by simp
  qed
qed

lemma read_header_oob:
  "read_header j st s = r \<Longrightarrow> header_run r = (e, st') \<Longrightarrow> romindx st + 255 * j < ENUMROMSZ \<Longrightarrow>
   Beyond_rom n \<in> set (oob st') \<Longrightarrow> Beyond_rom n \<in> set (oob st)"
proof (induction j arbitrary: st s r)
  case 0
  then show ?case by (auto simp: header_run_def)
next
  case (Suc j)
  show ?case
  proof (cases "fgets ROMSTRLN s")
    case None
    with Suc.prems show ?thesis by (auto simp: header_run_def)
  next
    case (Some a)
    obtain b s' where a: "a = (b, s')" by (cases a)
    from Some a have len: "length b \<le> 255" by (auto dest: fgets_length)
    from Suc.prems Some a have r: "read_header j (header_line st b) s' = r" by simp
    from header_line_romindx[OF len, of st] Suc.prems(3)
    have "romindx (header_line st b) + 255 * j < ENUMROMSZ" by simp
    from Suc.IH[OF r Suc.prems(2) this Suc.prems(4)]
    have "Beyond_rom n \<in> set (oob (header_line st b))" .
    moreover from Suc.prems(3) have "romindx st + 256 \<le> ENUMROMSZ" by simp
    from header_line_oob[OF len this]
    obtain ws where "oob (header_line st b) = oob st @ ws" "set ws \<subseteq> {Before_romstr}" by blast
    ultimately show ?thesis by auto
  qed
qed

lemma fgets_read_no_newline:
  "NL \<notin> set (take n s) \<Longrightarrow> fgets_read n s = (take n s, drop n s)"
  by (induction n s rule: fgets_read.induct) auto

lemma fgets_read_line:
  "NL \<notin> set l \<Longrightarrow> length l < n \<Longrightarrow> fgets_read n (l @ NL # r) = (l @ [NL], r)"
  by (induction n "l @ NL # r" arbitrary: l rule: fgets_read.induct) (auto simp: Cons_eq_append_conv)

lemma fgets_no_newline:
  "s \<noteq> [] \<Longrightarrow> NL \<notin> set (take 255 s) \<Longrightarrow> fgets ROMSTRLN s = Some (take 255 s, drop 255 s)"
  by (simp add: fgets_def ROMSTRLN_def fgets_read_no_newline)

lemma fgets_line:
  "NL \<notin> set l \<Longrightarrow> length l < 255 \<Longrightarrow> fgets ROMSTRLN (l @ NL # r) = Some (l @ [NL], r)"
  by (simp add: fgets_def ROMSTRLN_def fgets_read_line)

lemma store_read_back:
  "i + length bs \<le> length mem \<Longrightarrow> take (length bs) (drop i (store mem i (bs @ extra))) = bs"
  by (simp add: store_def)

text \<open>
  Claim C10. The loop over the header lines has no capacity check (it ends with the
  eight lines read or for want of a line, never for a ROM overflow), and needs none:
  each \<open>fgets\<close> yields at most 255 characters, one is removed, and the append
  moves the offset by at most 255, so after the eight appends the offset is at most
  2040, below the capacity 2048, whatever the file is; none of these appends writes
  beyond the end of \<open>rom\<close>.
\<close>

theorem C10_header_appends_stay_below_capacity:
  "(\<forall>st s. read_header 8 init descfile = Inr (st, s) \<longrightarrow>
       romindx st \<le> 2040 \<and> romindx st < ENUMROMSZ
       \<and> length (offsets st) = 8 \<and> (\<forall>x \<in> set (offsets st). x \<le> 2040)
       \<and> (\<forall>n. Beyond_rom n \<notin> set (oob st)))
   \<and> (\<forall>e st. read_header 8 init descfile = Inl (e, st) \<longrightarrow>
         e = NotEnoughRomStrings \<and> (\<forall>x \<in> set (offsets st). x \<le> 2040))"
proof (intro conjI allI impI)
  fix st s assume r: "read_header 8 init descfile = Inr (st, s)"
  have hr: "header_run (Inr (st, s)) = (None, st)"
    by (simp add: header_run_def)
  from read_header_bound[OF r hr]
  show "romindx st \<le> 2040" "length (offsets st) = 8" "\<forall>x \<in> set (offsets st). x \<le> 2040"
    by (auto simp: init_def)
  then show "romindx st < ENUMROMSZ"
    by (simp add: ENUMROMSZ_def)
  fix n show "Beyond_rom n \<notin> set (oob st)"
    using read_header_oob[OF r hr] by (auto simp: init_def ENUMROMSZ_def)
next
  fix e st assume r: "read_header 8 init descfile = Inl (e, st)"
  have hr: "header_run (Inl (e, st)) = (Some e, st)"
    by (simp add: header_run_def)
  from read_header_bound[OF r hr]
  show "e = NotEnoughRomStrings" "\<forall>x \<in> set (offsets st). x \<le> 2040"
    by (auto simp: init_def)
qed

text \<open>
  Claim C9. When a header line is read, the string that \<open>fgets\<close> leaves in
  \<open>romstr\<close> is, for \<open>strlen\<close> and \<open>sprintf\<close>, \<open>cstr romstr\<close>: the characters read,
  up to the first NUL if the line holds one. Its last character is removed whatever it
  is: the string appended to the ROM image is \<open>butlast (cstr romstr)\<close>, followed by
  NUL, for every string read. (An empty string has no character to remove: it is read
  when the line begins with NUL, the assignment then writes to \<open>romstr[-1]\<close>, which
  \<open>oob\<close> records, and the empty string is appended.) When the first 255 characters
  of the rest of the file hold no newline (the file ends without one, or the line is
  longer than the read window), the string read is these characters, no newline is in
  it, and the character removed is its last content character; the rest of a long line
  is left for the next read. A line of fewer than 255 characters is read with its
  newline, which is the character removed when the line holds no NUL.
\<close>

theorem C9_header_line_drops_last_character:
  "header_line st romstr =
     rom_sprintf (if cstr romstr = [] then st\<lparr>oob := oob st @ [Before_romstr]\<rparr> else st)
                 (butlast (cstr romstr))
   \<and> romindx (header_line st romstr) = romindx st + length (butlast (cstr romstr)) + 1
   \<and> (romindx st + length (butlast (cstr romstr)) + 1 \<le> length (rom st) \<longrightarrow>
        take (length (butlast (cstr romstr)) + 1) (drop (romindx st) (rom (header_line st romstr)))
          = butlast (cstr romstr) @ [NUL])
   \<and> (cstr romstr \<noteq> [] \<longrightarrow> cstr romstr = butlast (cstr romstr) @ [last (cstr romstr)]
                            \<and> last (cstr romstr) \<in> set romstr)
   \<and> (NUL \<notin> set romstr \<longrightarrow> cstr romstr = romstr)
   \<and> (fgets ROMSTRLN s = Some (romstr, s') \<longrightarrow>
        romstr \<noteq> [] \<and> s = romstr @ s'
        \<and> read_header (Suc j) st s = read_header j (header_line st romstr) s'
        \<and> (NL \<notin> set (take 255 s) \<longrightarrow> romstr = take 255 s \<and> s' = drop 255 s \<and> NL \<notin> set romstr)
        \<and> (\<forall>l r. s = l @ NL # r \<and> NL \<notin> set l \<and> length l < 255 \<longrightarrow>
              romstr = l @ [NL] \<and> s' = r))"
proof -
  let ?b = "butlast (cstr romstr)"
  let ?st = "if cstr romstr = [] then st\<lparr>oob := oob st @ [Before_romstr]\<rparr> else st"
  have hl: "header_line st romstr = rom_sprintf ?st ?b"
    by (simp add: header_line_eq)
  have cb: "cstr ?b = ?b"
    by (rule cstr_butlast_cstr)
  have ri: "romindx (header_line st romstr) = romindx st + length ?b + 1"
    by (simp add: hl strlen_def cb)
  have rm: "rom (header_line st romstr) = store (rom st) (romindx st) (?b @ [NUL, NUL])"
    by (simp add: hl rom_sprintf_def Let_def cb)
  have rb: "romindx st + length ?b + 1 \<le> length (rom st) \<longrightarrow>
            take (length ?b + 1) (drop (romindx st) (rom (header_line st romstr))) = ?b @ [NUL]"
  proof
    assume "romindx st + length ?b + 1 \<le> length (rom st)"
    then have "romindx st + length (?b @ [NUL]) \<le> length (rom st)"
      by simp
    then have "take (length (?b @ [NUL]))
                 (drop (romindx st) (store (rom st) (romindx st) ((?b @ [NUL]) @ [NUL])))
               = ?b @ [NUL]"
      by (rule store_read_back)
    then show "take (length ?b + 1) (drop (romindx st) (rom (header_line st romstr))) = ?b @ [NUL]"
      by (simp add: rm)
  qed
  have ls: "cstr romstr \<noteq> [] \<longrightarrow> cstr romstr = ?b @ [last (cstr romstr)]
                            \<and> last (cstr romstr) \<in> set romstr"
  proof
    assume ne: "cstr romstr \<noteq> []"
    then have "last (cstr romstr) \<in> set (cstr romstr)"
      by (rule last_in_set)
    then have "last (cstr romstr) \<in> set romstr"
      by (auto simp: cstr_def dest: set_takeWhileD)
    with ne show "cstr romstr = ?b @ [last (cstr romstr)] \<and> last (cstr romstr) \<in> set romstr"
      by simp
  qed
  have nn: "NUL \<notin> set romstr \<longrightarrow> cstr romstr = romstr"
    by (simp add: cstr_no_NUL)
  have fg: "fgets ROMSTRLN s = Some (romstr, s') \<longrightarrow>
        romstr \<noteq> [] \<and> s = romstr @ s'
        \<and> read_header (Suc j) st s = read_header j (header_line st romstr) s'
        \<and> (NL \<notin> set (take 255 s) \<longrightarrow> romstr = take 255 s \<and> s' = drop 255 s \<and> NL \<notin> set romstr)
        \<and> (\<forall>l r. s = l @ NL # r \<and> NL \<notin> set l \<and> length l < 255 \<longrightarrow>
              romstr = l @ [NL] \<and> s' = r)"
  proof
    assume f: "fgets ROMSTRLN s = Some (romstr, s')"
    from fgets_length[OF f] have ne: "romstr \<noteq> []" and s: "s = romstr @ s'"
      by simp_all
    have rh: "read_header (Suc j) st s = read_header j (header_line st romstr) s'"
      using f by simp
    have nl: "NL \<notin> set (take 255 s) \<longrightarrow> romstr = take 255 s \<and> s' = drop 255 s \<and> NL \<notin> set romstr"
    proof
      assume a: "NL \<notin> set (take 255 s)"
      from s ne have "s \<noteq> []" by simp
      from fgets_no_newline[OF this a] f have r: "romstr = take 255 s" "s' = drop 255 s"
        by simp_all
      with a show "romstr = take 255 s \<and> s' = drop 255 s \<and> NL \<notin> set romstr"
        by simp
    qed
    have ln: "\<forall>l r. s = l @ NL # r \<and> NL \<notin> set l \<and> length l < 255 \<longrightarrow> romstr = l @ [NL] \<and> s' = r"
      using f by (auto simp: fgets_line)
    from ne s rh nl ln show "romstr \<noteq> [] \<and> s = romstr @ s'
        \<and> read_header (Suc j) st s = read_header j (header_line st romstr) s'
        \<and> (NL \<notin> set (take 255 s) \<longrightarrow> romstr = take 255 s \<and> s' = drop 255 s \<and> NL \<notin> set romstr)
        \<and> (\<forall>l r. s = l @ NL # r \<and> NL \<notin> set l \<and> length l < 255 \<longrightarrow>
              romstr = l @ [NL] \<and> s' = r)"
      by (intro conjI)
  qed
  from hl ri rb ls nn fg show ?thesis
    by (intro conjI)
qed

theorem C9_header_line_drops_last_character_witness:
  "fgets ROMSTRLN f9 = Some (''abc'', []) \<and> NL \<notin> set (take 255 f9) \<and> NUL \<notin> set ''abc''
   \<and> header_line init ''abc'' = rom_sprintf init ''ab''
   \<and> read_header 1 init f9 = Inr (rom_sprintf init ''ab'', [])
   \<and> take 3 (rom (header_line init ''abc'')) = ''ab'' @ [NUL]
   \<and> header_line init (''ab'' @ NUL # ''cd\<newline>'') = rom_sprintf init ''a''
   \<and> header_line init (NUL # ''cd\<newline>'') = rom_sprintf (init\<lparr>oob := [Before_romstr]\<rparr>) []"
proof -
  have f: "fgets ROMSTRLN f9 = Some (''abc'', [])"
    by code_simp
  have n: "NL \<notin> set (take 255 f9)" "NUL \<notin> set ''abc''"
    by code_simp+
  have c: "cstr ''abc'' = ''abc''" "cstr (''ab'' @ NUL # ''cd\<newline>'') = ''ab''"
    "cstr (NUL # ''cd\<newline>'') = []"
    by code_simp+
  have i: "romindx init = 0" "length (rom init) = 2048" "oob init = []"
    by (simp_all add: init_def ENUMROMSZ_def)
  note t = C9_header_line_drops_last_character
    [where st = init and romstr = "''abc''" and s = f9 and s' = "[]" and j = 0]
  from t have 1: "header_line init ''abc'' = rom_sprintf init ''ab''"
    unfolding c by simp
  from t f have "read_header (Suc 0) init f9 = read_header 0 (header_line init ''abc'') []"
    by (elim conjE) simp
  then have 5: "read_header 1 init f9 = Inr (rom_sprintf init ''ab'', [])"
    by (simp add: 1)
  from t have "romindx init + length (butlast (cstr ''abc'')) + 1 \<le> length (rom init) \<longrightarrow>
        take (length (butlast (cstr ''abc'')) + 1) (drop (romindx init) (rom (header_line init ''abc'')))
          = butlast (cstr ''abc'') @ [NUL]"
    by (elim conjE)
  then have 2: "take 3 (rom (header_line init ''abc'')) = ''ab'' @ [NUL]"
    unfolding c i by (simp add: numeral_3_eq_3)
  from C9_header_line_drops_last_character
    [where st = init and romstr = "''ab'' @ NUL # ''cd\<newline>''" and s = f9 and s' = "[]" and j = 0]
  have 3: "header_line init (''ab'' @ NUL # ''cd\<newline>'') = rom_sprintf init ''a''"
    unfolding c by simp
  from C9_header_line_drops_last_character
    [where st = init and romstr = "NUL # ''cd\<newline>''" and s = f9 and s' = "[]" and j = 0]
  have 4: "header_line init (NUL # ''cd\<newline>'') = rom_sprintf (init\<lparr>oob := [Before_romstr]\<rparr>) []"
    unfolding c by (simp add: i)
  from f n 1 5 2 3 4 show ?thesis
    by (intro conjI)
qed

lemma read_header_skip:
  "skip_header j s = Some s' \<Longrightarrow> \<exists>st'. read_header j st s = Inr (st', s')"
proof (induction j arbitrary: st s)
  case 0
  then show ?case by simp
next
  case (Suc j)
  from Suc.prems obtain b s1 where f: "fgets ROMSTRLN s = Some (b, s1)"
    and k: "skip_header j s1 = Some s'"
    by (cases "fgets ROMSTRLN s") auto
  from Suc.IH[OF k, of "header_line st b"] f show ?case by simp
qed

lemma read_header_Inr_skip:
  "read_header j st s = Inr (st', s') \<Longrightarrow> skip_header j s = Some s'"
proof (induction j arbitrary: st s)
  case 0
  then show ?case by simp
next
  case (Suc j)
  from Suc.prems obtain b s1 where f: "fgets ROMSTRLN s = Some (b, s1)"
    by (cases "fgets ROMSTRLN s") auto
  with Suc.prems have "read_header j (header_line st b) s1 = Inr (st', s')"
    by simp
  from Suc.IH[OF this] f show ?case by simp
qed

theorem C10_header_appends_stay_below_capacity_witness:
  "(case read_header 8 init f8 of
      Inl r \<Rightarrow> False
    | Inr (st, s) \<Rightarrow> romindx st \<le> 2040 \<and> romindx st < ENUMROMSZ \<and> length (offsets st) = 8)
   \<and> (case read_header 8 init f9 of
        Inl (e, st) \<Rightarrow> e = NotEnoughRomStrings
      | Inr r \<Rightarrow> False)"
proof -
  have "skip_header 8 f8 = Some ''servo4\<newline>''"
    by code_simp
  from read_header_skip [OF this, of init]
  obtain st where r: "read_header 8 init f8 = Inr (st, ''servo4\<newline>'')"
    by blast
  have "skip_header 8 f9 = None"
    by code_simp
  then have "\<not> (\<exists>st s. read_header 8 init f9 = Inr (st, s))"
    by (auto dest: read_header_Inr_skip)
  then obtain e st' where l: "read_header 8 init f9 = Inl (e, st')"
    by (cases "read_header 8 init f9") auto
  from C10_header_appends_stay_below_capacity [of f8] r
  have "romindx st \<le> 2040 \<and> romindx st < ENUMROMSZ \<and> length (offsets st) = 8"
    by blast
  moreover from C10_header_appends_stay_below_capacity [of f9] l
  have "e = NotEnoughRomStrings"
    by blast
  ultimately show ?thesis
    by (simp add: r l)
qed

subsection \<open>The loop over the peripherals\<close>

lemma main_loop_run_tokens:
  "main_loop st s =
     (case run_tokens st (tokens s) of
        Inl e \<Rightarrow> Inl e
      | Inr st' \<Rightarrow> Inr (st'\<lparr>stdout := stdout st' @ [endmodule]\<rparr>))"
proof (induction st s rule: main_loop.induct)
  case (1 st s)
  show ?case
  proof (cases "fscanf_s s")
    case None
    then have "main_loop st s = Inr (st\<lparr>stdout := stdout st @ [endmodule]\<rparr>)"
      by (subst main_loop.simps) (simp add: endmodule_def)
    moreover from None have "tokens s = []"
      by (subst tokens.simps) simp
    ultimately show ?thesis by simp
  next
    case (Some a)
    obtain tok s' where a: "a = (tok, s')" by (cases a)
    from Some a have tk: "tokens s = tok # tokens s'"
      by (subst tokens.simps) simp
    show ?thesis
    proof (cases "peripheral st tok")
      case (Inl e)
      with Some a have "main_loop st s = Inl e"
        by (subst main_loop.simps) simp
      with Inl tk show ?thesis by simp
    next
      case (Inr st')
      with Some a have "main_loop st s = main_loop st' s'"
        by (subst main_loop.simps) simp
      moreover note "1.IH"[OF Some a[symmetric] Inr]
      ultimately show ?thesis using Inr tk by simp
    qed
  qed
qed

lemma process_fields:
  "slot (process st i peri) = slot st"
  "pin (process st i peri) = pin st + pinCount (invoke (enumerators ! i))"
  "calls (process st i peri) = calls st @ [(i, slot st, pin st)]"
  "pincludes (process st i peri) = pincludes st @ [include_line (incname (enumerators ! i))]"
  "stdout (process st i peri) = stdout st @ fst (call (invoke (enumerators ! i)) (slot st) (pin st) peri)"
  "penumlst (process st i peri) = penumlst st"
  "romindx (process st i peri) = romindx st + strlen (libname (enumerators ! i)) + 1"
  "offsets (process st i peri) = offsets st @ [romindx st + strlen (libname (enumerators ! i)) + 1]"
  "length (rom (process st i peri)) = length (rom st)"
  by (simp_all add: process_def Let_def call_next_pin)

lemma find_from_le: "find_from i tok es \<le> i + length es"
proof (induction es arbitrary: i)
  case Nil
  show ?case by simp
next
  case (Cons e es)
  from Cons[of "Suc i"] show ?case by simp
qed

lemma find_peri_less: "find_peri tok \<noteq> NPERI \<Longrightarrow> find_peri tok < NPERI"
  using find_from_le[of 0 tok enumerators] by (simp add: find_peri_def NPERI_def)

lemma libname_cstr:
  "i < NPERI \<Longrightarrow> cstr (libname (enumerators ! i)) = libname (enumerators ! i)"
proof -
  have "list_all (\<lambda>e. NUL \<notin> set (libname e)) enumerators"
    by (simp add: enumerators_def NUL_def)
  then show "i < NPERI \<Longrightarrow> cstr (libname (enumerators ! i)) = libname (enumerators ! i)"
    by (simp add: list_all_length NPERI_def cstr_no_NUL)
qed

lemma endmodule_notin_call: "endmodule \<notin> set (fst (call f a p n))"
  by (cases f) (simp_all add: endmodule_def invoke_defs printbus_def)

text \<open>What distinguishes the state after the rounds for some names from the state before.\<close>

lemma into_peri_fields [simp]:
  "slot (into_peri st tok) = slot st" "pin (into_peri st tok) = pin st"
  "calls (into_peri st tok) = calls st" "pincludes (into_peri st tok) = pincludes st"
  "stdout (into_peri st tok) = stdout st" "penumlst (into_peri st tok) = penumlst st"
  "romindx (into_peri st tok) = romindx st" "offsets (into_peri st tok) = offsets st"
  "rom (into_peri st tok) = rom st"
  by (simp_all add: into_peri_def)

lemma peripheral_comment:
  "is_comment (cstr tok) \<Longrightarrow> peripheral st tok = Inr (into_peri st tok)"
  by (simp add: peripheral_def Let_def)

lemma peripheral_unknown:
  "\<not> is_comment (cstr tok) \<Longrightarrow> find_peri (cstr tok) = NPERI \<Longrightarrow>
   peripheral st tok = Inl (UnknownPeripheral (cstr tok), into_peri st tok)"
  by (simp add: peripheral_def Let_def)

lemma peripheral_found:
  assumes "\<not> is_comment (cstr tok)" and "find_peri (cstr tok) \<noteq> NPERI"
  shows "peripheral st tok =
           (let st4 = process (into_peri st tok) (find_peri (cstr tok)) (cstr tok)
            in if romindx st4 > ENUMROMSZ
               then Inl (RomOverflow,
                         st4\<lparr>stdout := stdout st4 @ [Txt ''Oops, Enumerator ROM overflow\<newline>'' []]\<rparr>)
               else Inr (st4\<lparr>slot := slot st4 + 1\<rparr>))"
  using assms by (simp add: peripheral_def Let_def)


lemma chain_append:
  "chain a p (ns @ ms) =
     chain a p ns @ chain (a + of_nat (length ns)) (p + sum_list (map pinCount_of_name ns)) ms"
  by (induction ns arbitrary: a p) (auto simp: algebra_simps)

lemma wiring_of_append:
  "wiring_of a p (ns @ ms) =
     wiring_of a p ns @ wiring_of (a + of_nat (length ns)) (p + sum_list (map pinCount_of_name ns)) ms"
  by (induction ns arbitrary: a p) (auto simp: algebra_simps)

lemma endmodule_notin_wiring_of: "endmodule \<notin> set (wiring_of a p ns)"
  by (induction ns arbitrary: a p) (auto simp: endmodule_notin_call)

lemma rom_content_append:
  "rom_content [] (ns @ ms) = rom_content [] ns @ rom_content [] ms"
  by (simp add: rom_content_def)

lemma store_zero_filled:
  assumes "length c + length s + 1 \<le> ENUMROMSZ"
  shows "store (zero_filled c) (length c) (s @ [NUL, NUL]) = zero_filled (c @ s @ [NUL])"
proof -
  let ?k = "ENUMROMSZ - length c"
  from assms have k: "length s + 1 \<le> ?k" by simp
  show ?thesis
  proof (cases "?k = length s + 1")
    case True
    then show ?thesis using assms by (simp add: store_def zero_filled_def)
  next
    case False
    with k obtain m where m: "?k = length s + 2 + m"
      by (metis Suc_eq_plus1 Suc_leI add_2_eq_Suc' le_Suc_ex le_neq_implies_less)
    moreover from m assms have "ENUMROMSZ - Suc (length c + length s) = Suc m"
      by arith
    ultimately show ?thesis using assms
      by (simp add: store_def zero_filled_def)
  qed
qed

lemma advanced_refl: "advanced st [] st"
  by (simp add: advanced_def rom_content_def includes_of_def)

lemma advanced_into_peri: "advanced st [] (into_peri st tok)"
  by (simp add: advanced_def rom_content_def includes_of_def)

lemma advanced_trans:
  assumes "advanced st ns st1" and "advanced st1 ms st2"
  shows "advanced st (ns @ ms) st2"
proof -
  from assms(1) obtain xs1 where 1:
    "slot st1 = slot st + of_nat (length ns)"
    "pin st1 = pin st + sum_list (map pinCount_of_name ns)"
    "calls st1 = calls st @ chain (slot st) (pin st) ns"
    "pincludes st1 = pincludes st @ includes_of ns"
    "penumlst st1 = penumlst st"
    "stdout st1 = stdout st @ wiring_of (slot st) (pin st) ns"
    "offsets st1 = offsets st @ xs1" "length xs1 = length ns" "\<forall>x \<in> set xs1. x \<le> ENUMROMSZ"
    "romindx st1 = romindx st + length (rom_content [] ns)"
    "length (rom st1) = length (rom st)"
    "romindx st \<le> ENUMROMSZ \<longrightarrow> romindx st1 \<le> ENUMROMSZ"
    and r1: "\<forall>c. rom st = zero_filled c \<and> romindx st = length c \<and> romindx st1 \<le> ENUMROMSZ \<longrightarrow>
              rom st1 = zero_filled (c @ rom_content [] ns)"
    unfolding advanced_def by blast
  from assms(2) obtain xs2 where 2:
    "slot st2 = slot st1 + of_nat (length ms)"
    "pin st2 = pin st1 + sum_list (map pinCount_of_name ms)"
    "calls st2 = calls st1 @ chain (slot st1) (pin st1) ms"
    "pincludes st2 = pincludes st1 @ includes_of ms"
    "penumlst st2 = penumlst st1"
    "stdout st2 = stdout st1 @ wiring_of (slot st1) (pin st1) ms"
    "offsets st2 = offsets st1 @ xs2" "length xs2 = length ms" "\<forall>x \<in> set xs2. x \<le> ENUMROMSZ"
    "romindx st2 = romindx st1 + length (rom_content [] ms)"
    "length (rom st2) = length (rom st1)"
    "romindx st1 \<le> ENUMROMSZ \<longrightarrow> romindx st2 \<le> ENUMROMSZ"
    and r2: "\<forall>c. rom st1 = zero_filled c \<and> romindx st1 = length c \<and> romindx st2 \<le> ENUMROMSZ \<longrightarrow>
              rom st2 = zero_filled (c @ rom_content [] ms)"
    unfolding advanced_def by blast
  have a: "slot st2 = slot st + of_nat (length (ns @ ms))"
    using 1(1) 2(1) by simp
  have b: "pin st2 = pin st + sum_list (map pinCount_of_name (ns @ ms))"
    using 1(2) 2(2) by simp
  have c: "calls st2 = calls st @ chain (slot st) (pin st) (ns @ ms)"
    using 1(1,2,3) 2(3) by (simp add: chain_append)
  have d: "pincludes st2 = pincludes st @ includes_of (ns @ ms)"
    using 1(4) 2(4) by (simp add: includes_of_def)
  have e: "penumlst st2 = penumlst st"
    using 1(5) 2(5) by simp
  have f: "stdout st2 = stdout st @ wiring_of (slot st) (pin st) (ns @ ms)"
    using 1(1,2,6) 2(6) by (simp add: wiring_of_append)
  have g: "\<exists>xs. offsets st2 = offsets st @ xs \<and> length xs = length (ns @ ms)
              \<and> (\<forall>x \<in> set xs. x \<le> ENUMROMSZ)"
  proof (intro exI conjI)
    show "offsets st2 = offsets st @ (xs1 @ xs2)" using 1(7) 2(7) by simp
    show "length (xs1 @ xs2) = length (ns @ ms)" using 1(8) 2(8) by simp
    show "\<forall>x \<in> set (xs1 @ xs2). x \<le> ENUMROMSZ" using 1(9) 2(9) by auto
  qed
  have h: "romindx st2 = romindx st + length (rom_content [] (ns @ ms))"
    using 1(10) 2(10) by (simp add: rom_content_append)
  have i: "length (rom st2) = length (rom st)"
    using 1(11) 2(11) by simp
  have j: "\<forall>c. rom st = zero_filled c \<and> romindx st = length c \<and> romindx st2 \<le> ENUMROMSZ \<longrightarrow>
              rom st2 = zero_filled (c @ rom_content [] (ns @ ms))"
  proof (intro allI impI)
    fix c assume as: "rom st = zero_filled c \<and> romindx st = length c \<and> romindx st2 \<le> ENUMROMSZ"
    then have "romindx st1 \<le> ENUMROMSZ" using 2(10) by simp
    with as r1 have s1: "rom st1 = zero_filled (c @ rom_content [] ns)" by blast
    have "romindx st1 = length (c @ rom_content [] ns)" using as 1(10) by simp
    with s1 as r2 have "rom st2 = zero_filled ((c @ rom_content [] ns) @ rom_content [] ms)" by blast
    then show "rom st2 = zero_filled (c @ rom_content [] (ns @ ms))"
      by (simp add: rom_content_append)
  qed
  have l: "romindx st \<le> ENUMROMSZ \<longrightarrow> romindx st2 \<le> ENUMROMSZ"
    using 1(12) 2(12) by blast
  from a b c d e f g h i j l show ?thesis
    unfolding advanced_def by blast
qed

lemma process_rom:
  "rom (process st i peri) =
     store (rom st) (romindx st) (cstr (libname (enumerators ! i)) @ [NUL, NUL])"
  by (simp add: process_def Let_def rom_sprintf_def)

lemma advanced_step:
  assumes k: "known n"
    and st4: "st4 = process (into_peri st tok) (find_peri n) n"
    and fit: "romindx st4 \<le> ENUMROMSZ"
  shows "advanced st [n] (st4\<lparr>slot := slot st4 + 1\<rparr>)"
proof -
  let ?e = "enumerators ! find_peri n"
  from k have lt: "find_peri n < NPERI"
    by (simp add: known_def find_peri_less)
  then have lib: "cstr (libname ?e) = libname ?e"
    by (rule libname_cstr)
  then have len: "strlen (libname ?e) = length (libname ?e)"
    by (simp add: strlen_def)
  have ri: "romindx st4 = romindx st + length (libname ?e) + 1"
    by (simp add: st4 process_fields len)
  have rom: "\<forall>c. rom st = zero_filled c \<and> romindx st = length c \<and> romindx st4 \<le> ENUMROMSZ \<longrightarrow>
              rom st4 = zero_filled (c @ rom_content [] [n])"
  proof (intro allI impI)
    fix c assume as: "rom st = zero_filled c \<and> romindx st = length c \<and> romindx st4 \<le> ENUMROMSZ"
    with ri have "length c + length (libname ?e) + 1 \<le> ENUMROMSZ" by simp
    from store_zero_filled[OF this] as
    show "rom st4 = zero_filled (c @ rom_content [] [n])"
      by (simp add: st4 process_rom lib rom_content_def entry_of_def)
  qed
  show ?thesis
    unfolding advanced_def
    using fit rom ri
    by (simp add: st4 process_fields len includes_of_def entry_of_def pinCount_of_name_def
        rom_content_def)
qed

lemma names_of_Cons:
  "names_of (tok # toks) =
     (if is_comment (cstr tok) then names_of toks else cstr tok # names_of toks)"
  by (simp add: names_of_def)

lemma run_tokens_Inr:
  "run_tokens st toks = Inr st' \<Longrightarrow> advanced st (names_of toks) st' \<and> list_all known (names_of toks)"
proof (induction toks arbitrary: st)
  case Nil
  then show ?case by (simp add: names_of_def advanced_refl)
next
  case (Cons tok toks)
  show ?case
  proof (cases "is_comment (cstr tok)")
    case True
    with Cons.prems have "run_tokens (into_peri st tok) toks = Inr st'"
      by (simp add: peripheral_comment)
    from Cons.IH[OF this] advanced_trans[OF advanced_into_peri[of st tok]] True
    show ?thesis by (simp add: names_of_Cons)
  next
    case False
    define n where "n = cstr tok"
    define st4 where "st4 = process (into_peri st tok) (find_peri n) n"
    from Cons.prems False have k: "known n"
      by (auto simp: known_def n_def peripheral_unknown)
    with Cons.prems False have fit: "romindx st4 \<le> ENUMROMSZ"
      and r: "run_tokens (st4\<lparr>slot := slot st4 + 1\<rparr>) toks = Inr st'"
      by (auto simp: known_def n_def st4_def peripheral_found Let_def split: if_splits)
    from advanced_trans[OF advanced_step[OF k st4_def fit]] Cons.IH[OF r] k False
    show ?thesis by (simp add: names_of_Cons n_def)
  qed
qed

lemma peripheral_Inl: "peripheral st tok = Inl r \<Longrightarrow> stopped st tok r"
  by (auto simp: peripheral_def stopped_def Let_def known_def overflow_message_def split: if_splits)

lemma run_tokens_Inl:
  "run_tokens st toks = Inl r \<Longrightarrow>
   \<exists>pre tok rest st1. names_of toks = pre @ cstr tok # rest \<and> list_all known pre
      \<and> advanced st pre st1 \<and> stopped st1 tok r"
proof (induction toks arbitrary: st)
  case Nil
  then show ?case by simp
next
  case (Cons tok toks)
  show ?case
  proof (cases "peripheral st tok")
    case (Inl r')
    with Cons.prems have "r' = r" by simp
    with Inl have s: "stopped st tok r" by (simp add: peripheral_Inl)
    then have "\<not> is_comment (cstr tok)" by (simp add: stopped_def Let_def)
    then have "names_of (tok # toks) = [] @ cstr tok # names_of toks"
      by (simp add: names_of_Cons)
    moreover have "list_all known []" by simp
    ultimately show ?thesis using s advanced_refl[of st] by blast
  next
    case (Inr st1)
    with Cons.prems have "run_tokens st1 toks = Inl r" by simp
    from Cons.IH[OF this] obtain pre tok' rest st2 where ih:
      "names_of toks = pre @ cstr tok' # rest" "list_all known pre"
      "advanced st1 pre st2" "stopped st2 tok' r"
      by blast
    from Inr have "run_tokens st [tok] = Inr st1" by simp
    from run_tokens_Inr[OF this]
    have a: "advanced st (names_of [tok]) st1" "list_all known (names_of [tok])"
      by simp_all
    have "names_of (tok # toks) = (names_of [tok] @ pre) @ cstr tok' # rest"
      using ih(1) by (simp add: names_of_def)
    moreover have "list_all known (names_of [tok] @ pre)"
      using a(2) ih(2) by simp
    moreover have "advanced st (names_of [tok] @ pre) st2"
      using a(1) ih(3) by (rule advanced_trans)
    ultimately show ?thesis using ih(4) by blast
  qed
qed

subsection \<open>Addresses and pins\<close>

lemma pin_start_0 [simp]: "pin_start ns 0 = 0"
  by (simp add: pin_start_def)

lemma pin_start_Cons_Suc: "pin_start (n # ns) (Suc k) = pins_of_name n + pin_start ns k"
  by (simp add: pin_start_def)

lemma pin_start_Suc:
  "k < length ns \<Longrightarrow> pin_start ns (Suc k) = pin_start ns k + pins_of_name (ns ! k)"
  by (simp add: pin_start_def take_Suc_conv_app_nth)

lemma pin_start_all: "pin_start ns (length ns) = sum_list (map pins_of_name ns)"
  by (simp add: pin_start_def)

lemma pins_of_name_nonneg: "0 \<le> pins_of_name n"
  using pinCount_range by (simp add: pins_of_name_def pinCount_of_name_def)

lemma of_int_pins_of_name [simp]: "word_of_int (pins_of_name n) = pinCount_of_name n"
  by (simp add: pins_of_name_def)

lemma of_int_sum_pins:
  "word_of_int (sum_list (map pins_of_name ns)) = sum_list (map pinCount_of_name ns)"
  by (induction ns) simp_all

lemma pin_start_mono: "j \<le> k \<Longrightarrow> k \<le> length ns \<Longrightarrow> pin_start ns j \<le> pin_start ns k"
proof (induction k)
  case 0
  then show ?case by simp
next
  case (Suc k)
  show ?case
  proof (cases "j = Suc k")
    case True
    then show ?thesis by simp
  next
    case False
    with Suc.prems have "j \<le> k" "k < length ns" by simp_all
    with Suc.IH pin_start_Suc[of k ns] pins_of_name_nonneg[of "ns ! k"] show ?thesis
      by simp
  qed
qed

lemma pin_range_eq:
  "k < length ns \<Longrightarrow> pin_range ns k = {pin_start ns k ..< pin_start ns (Suc k)}"
  by (simp add: pin_range_def pin_start_Suc)

lemma pin_range_disjoint:
  assumes "j < k" and "k < length ns"
  shows "pin_range ns j \<inter> pin_range ns k = {}"
proof -
  from assms have "pin_start ns (Suc j) \<le> pin_start ns k"
    by (intro pin_start_mono) simp_all
  with assms show ?thesis
    by (auto simp: pin_range_eq)
qed

lemma pin_range_union:
  "n \<le> length ns \<Longrightarrow> (\<Union>k<n. pin_range ns k) = {0 ..< pin_start ns n}"
proof (induction n)
  case 0
  then show ?case by simp
next
  case (Suc n)
  then have n: "n < length ns" by simp
  have "0 \<le> pin_start ns n" 
    using pin_start_mono[of 0 n ns] n by simp
  moreover have "pin_start ns n \<le> pin_start ns (Suc n)"
    using pin_start_mono[of n "Suc n" ns] n by simp
  ultimately have "{0 ..< pin_start ns n} \<union> {pin_start ns n ..< pin_start ns (Suc n)}
                   = {0 ..< pin_start ns (Suc n)}"
    by (rule ivl_disj_un_two(3))
  with Suc n show ?case
    by (simp add: lessThan_Suc pin_range_eq Un_commute)
qed

lemma length_chain [simp]: "length (chain a p ns) = length ns"
  by (induction ns arbitrary: a p) auto

lemma chain_nth:
  "k < length ns \<Longrightarrow>
   chain a p ns ! k = (find_peri (ns ! k), a + of_nat k, p + word_of_int (pin_start ns k))"
proof (induction ns arbitrary: a p k)
  case Nil
  then show ?case by simp
next
  case (Cons n ns)
  show ?case
  proof (cases k)
    case 0
    then show ?thesis by simp
  next
    case (Suc k')
    with Cons.prems have "k' < length ns" by simp
    from Cons.IH[OF this] Suc show ?thesis
      by (simp add: pin_start_Cons_Suc algebra_simps)
  qed
qed

text \<open>The state that the header loop hands to the loop over the peripherals.\<close>

lemma read_header_init:
  assumes "read_header 8 init descfile = Inr (st0, s)"
  shows "slot st0 = 0" "pin st0 = 0" "calls st0 = []" "pincludes st0 = []" "penumlst st0 = []"
    "stdout st0 = []" "length (rom st0) = ENUMROMSZ" "length (offsets st0) = 8"
    "\<forall>x \<in> set (offsets st0). x \<le> 2040" "romindx st0 \<le> 2040"
proof -
  have hr: "header_run (Inr (st0, s)) = (None, st0)"
    by (simp add: header_run_def)
  from read_header_bound[OF assms hr]
  show "slot st0 = 0" "pin st0 = 0" "calls st0 = []" "pincludes st0 = []" "penumlst st0 = []"
    "stdout st0 = []" "length (rom st0) = ENUMROMSZ" "length (offsets st0) = 8"
    "\<forall>x \<in> set (offsets st0). x \<le> 2040" "romindx st0 \<le> 2040"
    by (auto simp: init_def)
qed

text \<open>The three ways in which a run ends.\<close>

lemma main_cases:
  obtains (header) st where "read_header 8 init descfile = Inl (NotEnoughRomStrings, st)"
      "main schar descfile = Inl (NotEnoughRomStrings, st)"
  | (stop) st0 s r where "read_header 8 init descfile = Inr (st0, s)"
      "run_tokens st0 (tokens s) = Inl r" "main schar descfile = Inl r"
  | (finish) st0 s st2 where "read_header 8 init descfile = Inr (st0, s)"
      "run_tokens st0 (tokens s) = Inr st2"
      "main schar descfile =
         Inr (st2\<lparr>stdout := stdout st2 @ [endmodule],
                   penumlst := enumerator_lst schar (rom st2)\<rparr>)"
proof (cases "read_header 8 init descfile")
  case (Inl a)
  obtain e st where a: "a = (e, st)" by (cases a)
  have "header_run (Inl (e, st)) = (Some e, st)" by (simp add: header_run_def)
  from read_header_bound[OF Inl[unfolded a] this] have "e = NotEnoughRomStrings" by simp
  with Inl a header show ?thesis by (simp add: main_def)
next
  case (Inr b)
  obtain st0 s where b: "b = (st0, s)" by (cases b)
  show ?thesis
  proof (cases "run_tokens st0 (tokens s)")
    case (Inl r)
    with Inr b stop show ?thesis by (simp add: main_def main_loop_run_tokens)
  next
    case (Inr st2)
    with \<open>read_header 8 init descfile = Inr b\<close> b finish show ?thesis
      by (simp add: main_def main_loop_run_tokens)
  qed
qed

subsection \<open>The content of the ROM image\<close>

lemma rom_content_headers_Cons:
  "rom_content (h # hs) ns = h @ [NUL] @ rom_content hs ns"
  by (simp add: rom_content_def)

lemma rom_content_split: "rom_content hs ns = rom_content hs [] @ rom_content [] ns"
  by (simp add: rom_content_def)

lemma cstr_Nil [simp]: "cstr [] = []"
  by (simp add: cstr_def)

lemma takeWhile_line: "NL \<notin> set h \<Longrightarrow> takeWhile (\<lambda>c. c \<noteq> NL) (h @ NL # r) = h"
  by (induction h) auto

lemma dropWhile_line: "NL \<notin> set h \<Longrightarrow> dropWhile (\<lambda>c. c \<noteq> NL) (h @ NL # r) = NL # r"
  by (induction h) auto

lemma header_line_rom:
  assumes "rom st = zero_filled c" and "romindx st = length c"
    and "length b \<le> 255" and "length c + 255 \<le> ENUMROMSZ"
    and "x = (if cstr b = [] then [] else butlast (cstr b))"
  shows "rom (header_line st b) = zero_filled (c @ x @ [NUL])"
    and "romindx (header_line st b) = length (c @ x @ [NUL])"
proof -
  have cx: "cstr x = x"
    using assms(5) cstr_butlast_cstr[of b] by (simp add: cstr_def)
  have "length x + 1 \<le> 255"
    using assms(3,5) strlen_le[of b] by (auto simp: strlen_def)
  with assms(4) have fit: "length c + length x + 1 \<le> ENUMROMSZ" by simp
  have hl: "rom (header_line st b) = store (rom st) (romindx st) (x @ [NUL, NUL])"
    using assms(5) by (simp add: header_line_eq rom_sprintf_def Let_def cx cstr_butlast_cstr)
  show "rom (header_line st b) = zero_filled (c @ x @ [NUL])"
    using store_zero_filled[OF fit] assms(1,2) by (simp add: hl)
  show "romindx (header_line st b) = length (c @ x @ [NUL])"
    using assms(2,5) by (simp add: header_line_eq strlen_def cstr_butlast_cstr cstr_def[of "[]"])
qed

lemma read_header_rom:
  "read_header j st s = Inr (st', s') \<Longrightarrow> rom st = zero_filled c \<Longrightarrow> romindx st = length c \<Longrightarrow>
   length c + 255 * j \<le> ENUMROMSZ \<Longrightarrow>
   rom st' = zero_filled (c @ rom_content (header_strings j s) [])
   \<and> romindx st' = length (c @ rom_content (header_strings j s) [])"
proof (induction j arbitrary: st s c)
  case 0
  then show ?case by (simp add: rom_content_def)
next
  case (Suc j)
  from Suc.prems(1) obtain b s1 where f: "fgets ROMSTRLN s = Some (b, s1)"
    by (cases "fgets ROMSTRLN s") auto
  with Suc.prems(1) have r: "read_header j (header_line st b) s1 = Inr (st', s')" by simp
  define x where "x = (if cstr b = [] then [] else butlast (cstr b))"
  from f have len: "length b \<le> 255" by (auto dest: fgets_length)
  from Suc.prems(4) have c255: "length c + 255 \<le> ENUMROMSZ" by simp
  note hl = header_line_rom[OF Suc.prems(2,3) len c255 x_def]
  have "length x + 1 \<le> 255"
    using len strlen_le[of b] by (auto simp: x_def strlen_def)
  with Suc.prems(4) have "length (c @ x @ [NUL]) + 255 * j \<le> ENUMROMSZ" by simp
  from Suc.IH[OF r hl this] f show ?case
    by (simp add: x_def rom_content_headers_Cons)
qed

lemma zero_filled_Nil: "rom init = zero_filled []"
  by (simp add: init_def zero_filled_def)

lemma header_strings_lines:
  "list_all plain_line hs \<Longrightarrow> header_strings (length hs) (text_lines hs @ s) = hs"
proof (induction hs)
  case Nil
  then show ?case by simp
next
  case (Cons h hs)
  then have p: "NL \<notin> set h" "NUL \<notin> set h" "length h < 255"
    by (simp_all add: plain_line_def)
  have c: "cstr (h @ [NL]) = h @ [NL]"
    using p(2) by (intro cstr_no_NUL) (simp add: NUL_def NL_def)
  from fgets_line[OF p(1,3)] Cons show ?case
    by (simp add: text_lines_def c)
qed

lemma read_header_lines:
  "list_all plain_line hs \<Longrightarrow> \<exists>st'. read_header (length hs) st (text_lines hs @ s) = Inr (st', s)"
proof (induction hs arbitrary: st)
  case Nil
  then show ?case by (simp add: text_lines_def)
next
  case (Cons h hs)
  then have p: "NL \<notin> set h" "length h < 255"
    by (simp_all add: plain_line_def)
  from Cons have "list_all plain_line hs" by simp
  from Cons.IH[OF this, of "header_line st (h @ [NL])"] fgets_line[OF p] show ?case
    by (simp add: text_lines_def)
qed

lemma first_lines_text_lines:
  "list_all plain_line hs \<Longrightarrow> first_lines (length hs) (text_lines hs @ s) = (hs, s)"
proof (induction hs)
  case Nil
  then show ?case by (simp add: text_lines_def)
next
  case (Cons h hs)
  then have p: "NL \<notin> set h" by (simp add: plain_line_def)
  from takeWhile_line[OF p] dropWhile_line[OF p] Cons show ?case
    by (simp add: text_lines_def)
qed

lemma run_tokens_succeeds:
  "list_all known (names_of toks) \<Longrightarrow>
   romindx st + length (rom_content [] (names_of toks)) \<le> ENUMROMSZ \<Longrightarrow>
   \<exists>st'. run_tokens st toks = Inr st'"
proof (induction toks arbitrary: st)
  case Nil
  then show ?case by simp
next
  case (Cons tok toks)
  show ?case
  proof (cases "is_comment (cstr tok)")
    case True
    with Cons.prems Cons.IH[of "into_peri st tok"] show ?thesis
      by (simp add: names_of_Cons peripheral_comment)
  next
    case False
    define n where "n = cstr tok"
    define st4 where "st4 = process (into_peri st tok) (find_peri n) n"
    from False Cons.prems(1) have k: "known n" and ks: "list_all known (names_of toks)"
      by (simp_all add: names_of_Cons n_def)
    then have lt: "find_peri n < NPERI" by (simp add: known_def find_peri_less)
    have ri: "romindx st4 = romindx st + length (libname (entry_of n)) + 1"
      using libname_cstr[OF lt] by (simp add: st4_def process_fields strlen_def entry_of_def)
    from False Cons.prems(2) have fit: "romindx st + length (libname (entry_of n)) + 1
        + length (rom_content [] (names_of toks)) \<le> ENUMROMSZ"
      by (simp add: names_of_Cons n_def rom_content_def)
    with ri have "romindx (st4\<lparr>slot := slot st4 + 1\<rparr>) + length (rom_content [] (names_of toks)) \<le> ENUMROMSZ"
      by simp
    from Cons.IH[OF ks this] obtain st' where "run_tokens (st4\<lparr>slot := slot st4 + 1\<rparr>) toks = Inr st'"
      by blast
    moreover from fit ri have "\<not> ENUMROMSZ < romindx st4" by simp
    ultimately show ?thesis
      using False k by (simp add: peripheral_found n_def[symmetric] known_def st4_def[symmetric] Let_def)
  qed
qed

subsection \<open>Whole runs\<close>

lemma after_header_skip: "skip_header 8 descfile = Some s \<Longrightarrow> after_header descfile = s"
  using read_header_skip[of 8 descfile s init] by (auto simp: after_header_def)

lemma tokens_Nil [simp]: "tokens [] = []"
  by (subst tokens.simps) (simp add: fscanf_s_def)

lemma peri_names_Nil [simp]: "peri_names [] = []"
  by (simp add: peri_names_def names_of_def)

lemma read_header_stdout:
  "read_header j st s = Inl (e, st') \<Longrightarrow>
   stdout st' = stdout st @ [Txt ''Not enough ROM strings\<newline>'' []]"
proof (induction j arbitrary: st s)
  case 0
  then show ?case by simp
next
  case (Suc j)
  show ?case
  proof (cases "fgets ROMSTRLN s")
    case None
    with Suc.prems show ?thesis by auto
  next
    case (Some a)
    obtain b s1 where "a = (b, s1)" by (cases a)
    with Some Suc.prems Suc.IH[of "header_line st b" s1] show ?thesis by simp
  qed
qed

lemma read_header_checked_eq:
  "romindx st + 255 * j \<le> ENUMROMSZ \<Longrightarrow> read_header_checked j st s = read_header j st s"
proof (induction j arbitrary: st s)
  case 0
  then show ?case by simp
next
  case (Suc j)
  show ?case
  proof (cases "fgets ROMSTRLN s")
    case None
    then show ?thesis by simp
  next
    case (Some a)
    obtain b s1 where a: "a = (b, s1)" by (cases a)
    with Some have "length b \<le> 255" by (auto dest: fgets_length)
    from header_line_romindx[OF this, of st] Suc.prems
    have "romindx (header_line st b) + 255 * j \<le> ENUMROMSZ" by simp
    from Suc.IH[OF this] this Some a show ?thesis by (simp add: Let_def)
  qed
qed

lemma main_checked_eq: "main_checked schar descfile = main schar descfile"
proof -
  have "romindx init + 255 * 8 \<le> ENUMROMSZ"
    by (simp add: init_def ENUMROMSZ_def)
  then show ?thesis
    by (simp add: main_checked_def main_def read_header_checked_eq)
qed

lemma endmodule_neq [simp]:
  "endmodule \<noteq> overflow_message" "endmodule \<noteq> Txt ''Not enough ROM strings\<newline>'' []"
  by (simp_all add: endmodule_def overflow_message_def)

text \<open>The state in which a round of the loop ends the run.\<close>

lemma stopped_facts:
  assumes "stopped st1 tok (e, st)"
  shows "penumlst st = penumlst st1"
    and "endmodule \<notin> set (stdout st1) \<Longrightarrow> endmodule \<notin> set (stdout st)"
    and "known (cstr tok) \<Longrightarrow>
           e = RomOverflow \<and> offsets st = offsets st1 @ [romindx st] \<and> ENUMROMSZ < romindx st"
    and "known (cstr tok) \<Longrightarrow>
           romindx st = romindx st1 + strlen (libname (enumerators ! find_peri (cstr tok))) + 1
           \<and> stdout st \<noteq> [] \<and> last (stdout st) = overflow_message"
    and "\<not> known (cstr tok) \<Longrightarrow>
           e = UnknownPeripheral (cstr tok) \<and> offsets st = offsets st1 \<and> calls st = calls st1
           \<and> pincludes st = pincludes st1 \<and> stdout st = stdout st1 \<and> rom st = rom st1
           \<and> romindx st = romindx st1"
  using assms
  by (auto simp: stopped_def Let_def process_fields endmodule_notin_call split: if_splits)

lemma after_header_lines:
  "list_all plain_line hs \<Longrightarrow> length hs = 8 \<Longrightarrow> after_header (text_lines hs @ s) = s"
  using read_header_lines[of hs init s] by (auto simp: after_header_def)

lemma main_succeeds:
  assumes "list_all plain_line hs" and "length hs = 8"
    and "list_all known (peri_names s)"
    and "length (rom_content hs (peri_names s)) \<le> ENUMROMSZ"
  shows "\<exists>st. main schar (text_lines hs @ s) = Inr st"
proof -
  from read_header_lines[OF assms(1), of init s] assms(2)
  obtain st0 where r: "read_header 8 init (text_lines hs @ s) = Inr (st0, s)"
    by auto
  have "length ([]::char list) + 255 * 8 \<le> ENUMROMSZ"
    by (simp add: ENUMROMSZ_def)
  from read_header_rom[OF r zero_filled_Nil _ this] header_strings_lines[OF assms(1), of s] assms(2)
  have "romindx st0 = length (rom_content hs [])"
    by (simp add: init_def)
  with assms(4) have "romindx st0 + length (rom_content [] (names_of (tokens s))) \<le> ENUMROMSZ"
    by (simp add: rom_content_def peri_names_def)
  from run_tokens_succeeds[OF assms(3)[unfolded peri_names_def] this]
  obtain st2 where "run_tokens st0 (tokens s) = Inr st2" by blast
  with r show ?thesis
    by (simp add: main_def main_loop_run_tokens)
qed

lemma main_Inr:
  assumes "main schar descfile = Inr st"
  obtains st0 s st2 where "read_header 8 init descfile = Inr (st0, s)"
    and "after_header descfile = s"
    and "advanced st0 (peri_names s) st2" and "list_all known (peri_names s)"
    and "st = st2\<lparr>stdout := stdout st2 @ [endmodule], penumlst := enumerator_lst schar (rom st2)\<rparr>"
proof (cases descfile rule: main_cases[where schar = schar])
  case (header st')
  with assms show ?thesis by simp
next
  case (stop st0 s r)
  with assms show ?thesis by simp
next
  case (finish st0 s st2)
  from run_tokens_Inr[OF finish(2)] finish(1,3) assms that[of st0 s st2] show ?thesis
    by (simp add: after_header_def peri_names_def)
qed

lemma main_overflows:
  assumes "skip_header 8 descfile = Some s" and "tokens s = tok # toks"
    and "\<not> is_comment (cstr tok)" and "known (cstr tok)"
    and "ENUMROMSZ < length (rom_content (header_strings 8 descfile) [cstr tok])"
  shows "\<exists>st. main schar descfile = Inl (RomOverflow, st)"
proof -
  from read_header_skip[OF assms(1), of init]
  obtain st0 where r: "read_header 8 init descfile = Inr (st0, s)" by blast
  have "length ([]::char list) + 255 * 8 \<le> ENUMROMSZ"
    by (simp add: ENUMROMSZ_def)
  from read_header_rom[OF r zero_filled_Nil _ this]
  have ri: "romindx st0 = length (rom_content (header_strings 8 descfile) [])"
    by (simp add: init_def)
  define n where "n = cstr tok"
  define st4 where "st4 = process (into_peri st0 tok) (find_peri n) n"
  from assms(4) have lt: "find_peri n < NPERI" by (simp add: known_def find_peri_less n_def)
  have "romindx st4 = romindx st0 + length (libname (entry_of n)) + 1"
    using libname_cstr[OF lt] by (simp add: st4_def process_fields strlen_def entry_of_def)
  with ri assms(5) have "ENUMROMSZ < romindx st4"
    by (simp add: rom_content_def n_def)
  with assms(3,4) have "\<exists>st. peripheral st0 tok = Inl (RomOverflow, st)"
    by (simp add: peripheral_found n_def[symmetric] known_def st4_def[symmetric] Let_def)
  then obtain st where "run_tokens st0 (tokens s) = Inl (RomOverflow, st)"
    by (auto simp: assms(2))
  with r show ?thesis
    by (auto simp: main_def main_loop_run_tokens)
qed

lemma skip_header_lines:
  "list_all plain_line hs \<Longrightarrow> skip_header (length hs) (text_lines hs @ s) = Some s"
proof (induction hs)
  case Nil
  then show ?case by (simp add: text_lines_def)
next
  case (Cons h hs)
  then have p: "NL \<notin> set h" "length h < 255"
    by (simp_all add: plain_line_def)
  from fgets_line[OF p] Cons show ?case
    by (simp add: text_lines_def)
qed

lemma header_stop_facts:
  assumes "read_header 8 init descfile = Inl (e, st)"
  shows "e = NotEnoughRomStrings" "\<forall>x \<in> set (offsets st). x \<le> 2040" "penumlst st = []"
    "endmodule \<notin> set (stdout st)" "calls st = []" "pincludes st = []"
proof -
  have hr: "header_run (Inl (e, st)) = (Some e, st)"
    by (simp add: header_run_def)
  from read_header_bound[OF assms hr]
  show "e = NotEnoughRomStrings" "\<forall>x \<in> set (offsets st). x \<le> 2040" "penumlst st = []"
    "calls st = []" "pincludes st = []"
    by (auto simp: init_def)
  from read_header_stdout[OF assms] show "endmodule \<notin> set (stdout st)"
    by (simp add: init_def)
qed

text \<open>A run that a round of the loop ends.\<close>

lemma main_stop:
  assumes h: "read_header 8 init descfile = Inr (st0, s)"
    and r: "run_tokens st0 (tokens s) = Inl (e, st)"
  obtains pre tok rest st1 where "peri_names s = pre @ cstr tok # rest" and "list_all known pre"
    and "advanced st0 pre st1" and "stopped st1 tok (e, st)"
    and "\<forall>x \<in> set (offsets st1). x \<le> ENUMROMSZ" and "length (offsets st1) = 8 + length pre"
    and "endmodule \<notin> set (stdout st1)" and "penumlst st1 = []"
    and "calls st1 = chain 0 0 pre" and "pincludes st1 = includes_of pre"
    and "stdout st1 = wiring_of 0 0 pre"
proof -
  from run_tokens_Inl[OF r] obtain pre tok rest st1 where
    n: "peri_names s = pre @ cstr tok # rest" and k: "list_all known pre"
    and a: "advanced st0 pre st1" and s: "stopped st1 tok (e, st)"
    by (auto simp: peri_names_def)
  note i = read_header_init[OF h]
  from a obtain xs where xs: "offsets st1 = offsets st0 @ xs" "length xs = length pre"
    "\<forall>x \<in> set xs. x \<le> ENUMROMSZ"
    unfolding advanced_def by blast
  with i(8,9) have o: "\<forall>x \<in> set (offsets st1). x \<le> ENUMROMSZ" "length (offsets st1) = 8 + length pre"
    by (auto simp: ENUMROMSZ_def)
  from a i have w: "stdout st1 = wiring_of 0 0 pre" "penumlst st1 = []"
    "calls st1 = chain 0 0 pre" "pincludes st1 = includes_of pre"
    by (simp_all add: advanced_def)
  then have "endmodule \<notin> set (stdout st1)"
    by (simp add: endmodule_notin_wiring_of)
  with n k a s o w that show ?thesis by blast
qed

lemma nth_zero_filled: "k < length bs \<Longrightarrow> zero_filled bs ! k = bs ! k"
  by (simp add: zero_filled_def nth_append)

lemma length_zero_filled: "length bs \<le> ENUMROMSZ \<Longrightarrow> length (zero_filled bs) = ENUMROMSZ"
  by (simp add: zero_filled_def)

lemma main_succeeds_gen:
  assumes "skip_header 8 descfile = Some s"
    and "list_all known (peri_names s)"
    and "length (rom_content (header_strings 8 descfile) (peri_names s)) \<le> ENUMROMSZ"
  shows "\<exists>st. main schar descfile = Inr st"
proof -
  from read_header_skip[OF assms(1), of init]
  obtain st0 where r: "read_header 8 init descfile = Inr (st0, s)"
    by auto
  have "length ([]::char list) + 255 * 8 \<le> ENUMROMSZ"
    by (simp add: ENUMROMSZ_def)
  from read_header_rom[OF r zero_filled_Nil _ this]
  have "romindx st0 = length (rom_content (header_strings 8 descfile) [])"
    by (simp add: init_def)
  with assms(3) have "romindx st0 + length (rom_content [] (names_of (tokens s))) \<le> ENUMROMSZ"
    by (simp add: rom_content_def peri_names_def)
  from run_tokens_succeeds[OF assms(2)[unfolded peri_names_def] this]
  obtain st2 where "run_tokens st0 (tokens s) = Inr st2" by blast
  with r show ?thesis
    by (simp add: main_def main_loop_run_tokens)
qed

lemma main_rom:
  assumes "main schar descfile = Inr st"
  shows "rom st = zero_filled (rom_content (header_strings 8 descfile) (peri_names (after_header descfile)))"
    and "romindx st = length (rom_content (header_strings 8 descfile) (peri_names (after_header descfile)))"
    and "romindx st \<le> ENUMROMSZ"
proof -
  from assms obtain st0 s st2 where h: "read_header 8 init descfile = Inr (st0, s)"
    and s: "after_header descfile = s"
    and a: "advanced st0 (peri_names s) st2"
    and st: "st = st2\<lparr>stdout := stdout st2 @ [endmodule], penumlst := enumerator_lst schar (rom st2)\<rparr>"
    by (rule main_Inr)
  let ?hs = "header_strings 8 descfile"
  have "length ([]::char list) + 255 * 8 \<le> ENUMROMSZ"
    by (simp add: ENUMROMSZ_def)
  from read_header_rom[OF h zero_filled_Nil _ this]
  have r0: "rom st0 = zero_filled (rom_content ?hs [])" "romindx st0 = length (rom_content ?hs [])"
    by (simp_all add: init_def)
  from read_header_init(10)[OF h] have "romindx st0 \<le> ENUMROMSZ"
    by (simp add: ENUMROMSZ_def)
  with a have le: "romindx st2 \<le> ENUMROMSZ"
    and ri: "romindx st2 = romindx st0 + length (rom_content [] (peri_names s))"
    and rc: "\<forall>c. rom st0 = zero_filled c \<and> romindx st0 = length c \<and> romindx st2 \<le> ENUMROMSZ \<longrightarrow>
              rom st2 = zero_filled (c @ rom_content [] (peri_names s))"
    unfolding advanced_def by blast+
  from rc r0 le have "rom st2 = zero_filled (rom_content ?hs [] @ rom_content [] (peri_names s))"
    by blast
  then show "rom st = zero_filled (rom_content ?hs (peri_names (after_header descfile)))"
    using rom_content_split[of ?hs "peri_names s"] by (simp add: st s)
  show "romindx st = length (rom_content ?hs (peri_names (after_header descfile)))"
    using ri r0(2) rom_content_split[of ?hs "peri_names s"] by (simp add: st s)
  show "romindx st \<le> ENUMROMSZ"
    using le by (simp add: st)
qed

lemma main_penumlst:
  assumes "main schar descfile = Inr st"
  shows "penumlst st = enumerator_lst schar (rom st)"
proof -
  from assms obtain st0 s st2 where "read_header 8 init descfile = Inr (st0, s)"
    and "st = st2\<lparr>stdout := stdout st2 @ [endmodule], penumlst := enumerator_lst schar (rom st2)\<rparr>"
    by (rule main_Inr)
  then show ?thesis by simp
qed

lemma main_rom_length: "main schar descfile = Inr st \<Longrightarrow> length (rom st) = ENUMROMSZ"
  using main_rom[of schar descfile st] by (simp add: length_zero_filled)

lemma main_Inr_chain:
  assumes "main schar descfile = Inr st" and "names = peri_names (after_header descfile)"
  shows "list_all known names
       \<and> calls st = chain 0 0 names
       \<and> slot st = of_nat (length names)
       \<and> pin st = word_of_int (pin_start names (length names))
       \<and> pincludes st = includes_of names
       \<and> stdout st = wiring_of 0 0 names @ [endmodule]"
proof -
  from assms(1) obtain st0 s st2 where h: "read_header 8 init descfile = Inr (st0, s)"
    and s: "after_header descfile = s"
    and a: "advanced st0 (peri_names s) st2" and k: "list_all known (peri_names s)"
    and st: "st = st2\<lparr>stdout := stdout st2 @ [endmodule], penumlst := enumerator_lst schar (rom st2)\<rparr>"
    by (rule main_Inr)
  from s assms(2) have n: "peri_names s = names" by simp
  note i = read_header_init[OF h]
  from a i k show ?thesis
    by (simp add: advanced_def st n pin_start_all of_int_sum_pins)
qed

text \<open>
  The cursors stay far below the limits of a 32-bit \<open>int\<close>: every library name has
  at least three characters, so a run that ends with \<open>exit(0)\<close> has at most 512
  peripherals, and each takes at most 8 pins. So \<open>slot\<close> and \<open>pin\<close> never wrap
  around: their values are the number of the peripherals and the sum of their pin
  counts.
\<close>

lemma sum_pins_le: "sum_list (map pins_of_name ns) \<le> 8 * int (length ns)"
proof (induction ns)
  case Nil
  show ?case by simp
next
  case (Cons n ns)
  from pinCount_range[of "invoke (entry_of n)"] have "pins_of_name n \<le> 8"
    by (simp add: pins_of_name_def pinCount_of_name_def)
  with Cons show ?case by simp
qed

lemma libname_length: "known n \<Longrightarrow> 3 \<le> length (libname (entry_of n))"
proof -
  have "list_all (\<lambda>e. 3 \<le> length (libname e)) enumerators"
    by (simp add: enumerators_def)
  moreover assume "known n"
  then have "find_peri n < NPERI"
    by (simp add: known_def find_peri_less)
  ultimately show ?thesis
    by (simp add: list_all_length NPERI_def entry_of_def)
qed

lemma names_fit: "list_all known ns \<Longrightarrow> 4 * length ns \<le> length (rom_content [] ns)"
proof (induction ns)
  case Nil
  show ?case by (simp add: rom_content_def)
next
  case (Cons n ns)
  then have "3 \<le> length (libname (entry_of n))" and "4 * length ns \<le> length (rom_content [] ns)"
    by (simp_all add: libname_length)
  then show ?case by (simp add: rom_content_def)
qed

lemma main_cursors_bounded:
  assumes "main schar descfile = Inr st" and "names = peri_names (after_header descfile)"
  shows "length names \<le> 512
       \<and> sint (slot st) = int (length names)
       \<and> sint (pin st) = pin_start names (length names)
       \<and> (\<forall>k \<le> length names. 0 \<le> pin_start names k \<and> pin_start names k \<le> 4096)"
proof -
  from main_Inr_chain[OF assms]
  have k: "list_all known names" and sl: "slot st = of_nat (length names)"
    and pn: "pin st = word_of_int (pin_start names (length names))"
    by simp_all
  from main_rom(2,3)[OF assms(1)]
  have "length (rom_content (header_strings 8 descfile) names) \<le> ENUMROMSZ"
    by (simp add: assms(2))
  then have "length (rom_content [] names) \<le> 2048"
    using rom_content_split[of "header_strings 8 descfile" names] by (simp add: ENUMROMSZ_def)
  with names_fit[OF k] have n: "length names \<le> 512"
    by simp
  have b: "0 \<le> pin_start names j \<and> pin_start names j \<le> 4096" if "j \<le> length names" for j
  proof -
    have "0 \<le> pin_start names j"
      using pin_start_mono[of 0 j names] that by simp
    moreover have "pin_start names j \<le> pin_start names (length names)"
      using pin_start_mono[of j "length names" names] that by simp
    moreover have "pin_start names (length names) \<le> 8 * int (length names)"
      using sum_pins_le[of names] by (simp add: pin_start_all)
    ultimately show ?thesis
      using n by simp
  qed
  from n have "sint (slot st) = int (length names)"
    by (simp add: sl sint_of_nat_small)
  moreover from b[of "length names"] have "sint (pin st) = pin_start names (length names)"
    by (simp add: pn sint_of_int_small)
  ultimately show ?thesis
    using n b by blast
qed


text \<open>Tokens that fit \<open>peri\<close> are stored inside it.\<close>

lemma into_peri_fits: "fits_peri tok \<Longrightarrow> into_peri st tok = st"
  by (simp add: into_peri_def fits_peri_def)

lemma rom_sprintf_oob_peri:
  "Beyond_peri k \<in> set (oob (rom_sprintf st s)) \<longleftrightarrow> Beyond_peri k \<in> set (oob st)"
  by (simp add: rom_sprintf_def Let_def)

lemma header_line_oob_peri:
  "Beyond_peri k \<in> set (oob (header_line st b)) \<longleftrightarrow> Beyond_peri k \<in> set (oob st)"
  by (simp add: header_line_eq rom_sprintf_oob_peri)

lemma read_header_oob_peri:
  "read_header j st s = r \<Longrightarrow> header_run r = (e, st') \<Longrightarrow>
   Beyond_peri k \<in> set (oob st') \<Longrightarrow> Beyond_peri k \<in> set (oob st)"
proof (induction j arbitrary: st s)
  case 0
  then show ?case by (auto simp: header_run_def)
next
  case (Suc j)
  show ?case
  proof (cases "fgets ROMSTRLN s")
    case None
    with Suc.prems show ?thesis by (auto simp: header_run_def)
  next
    case (Some a)
    obtain b s1 where a: "a = (b, s1)" by (cases a)
    with Some Suc.prems have "read_header j (header_line st b) s1 = r" by simp
    from Suc.IH[OF this Suc.prems(2,3)] show ?thesis
      by (simp add: header_line_oob_peri)
  qed
qed

lemma peripheral_oob_peri:
  assumes "fits_peri tok" and "Beyond_peri k \<in> set (oob (final (peripheral st tok)))"
  shows "Beyond_peri k \<in> set (oob st)"
  using assms(2)
  by (auto simp: peripheral_def into_peri_fits[OF assms(1)] Let_def final_def process_def
      rom_sprintf_oob_peri split: if_splits)

lemma run_tokens_oob_peri:
  "list_all fits_peri toks \<Longrightarrow> Beyond_peri k \<in> set (oob (final (run_tokens st toks))) \<Longrightarrow>
   Beyond_peri k \<in> set (oob st)"
proof (induction toks arbitrary: st)
  case Nil
  then show ?case by (simp add: final_def)
next
  case (Cons tok toks)
  then have f: "fits_peri tok" and fs: "list_all fits_peri toks" by simp_all
  show ?case
  proof (cases "peripheral st tok")
    case (Inl r)
    with Cons.prems(2) have "Beyond_peri k \<in> set (oob (final (peripheral st tok)))" by simp
    from peripheral_oob_peri[OF f this] show ?thesis .
  next
    case (Inr st1)
    with Cons.prems(2) have "Beyond_peri k \<in> set (oob (final (run_tokens st1 toks)))" by simp
    from Cons.IH[OF fs this] have "Beyond_peri k \<in> set (oob (final (peripheral st tok)))"
      by (simp add: Inr final_def)
    from peripheral_oob_peri[OF f this] show ?thesis .
  qed
qed

lemma main_oob_peri:
  assumes "list_all fits_peri (tokens (after_header descfile))"
  shows "Beyond_peri k \<notin> set (oob (final (main schar descfile)))"
proof (cases descfile rule: main_cases[where schar = schar])
  case (header st')
  have "header_run (Inl (NotEnoughRomStrings, st')) = (Some NotEnoughRomStrings, st')"
    by (simp add: header_run_def)
  from read_header_oob_peri[OF header(1) this, of k] show ?thesis
    by (auto simp: header(2) final_def init_def)
next
  case (stop st0 s r)
  have hr: "header_run (Inr (st0, s)) = (None, st0)"
    by (simp add: header_run_def)
  from stop(1) assms have "list_all fits_peri (tokens s)"
    by (simp add: after_header_def)
  from run_tokens_oob_peri[OF this, of k st0] read_header_oob_peri[OF stop(1) hr, of k]
  show ?thesis
    by (auto simp: stop(2,3) init_def)
next
  case (finish st0 s st2)
  have hr: "header_run (Inr (st0, s)) = (None, st0)"
    by (simp add: header_run_def)
  from finish(1) assms have "list_all fits_peri (tokens s)"
    by (simp add: after_header_def)
  from run_tokens_oob_peri[OF this, of k st0] read_header_oob_peri[OF finish(1) hr, of k]
  show ?thesis
    by (auto simp: finish(2,3) init_def final_def)
qed

text \<open>The first name of a list that is not known.\<close>

lemma first_unknown:
  assumes "u \<in> set names" and "\<not> known u"
  obtains pre n rest where "names = pre @ n # rest" and "list_all known pre" and "\<not> known n"
proof -
  from assms have "\<exists>x \<in> set names. \<not> known x" by blast
  from split_list_first_prop[OF this] obtain ys x zs where
    "names = ys @ x # zs" "\<not> known x" "\<forall>y \<in> set ys. \<not> \<not> known y"
    by blast
  with that[of ys x zs] show ?thesis
    by (simp add: list_all_iff)
qed

lemma first_unknown_unique:
  assumes "pre @ n # rest = pre' @ t # rest'"
    and "list_all known pre" and "\<not> known n" and "list_all known pre'"
  shows "(\<not> known t \<longrightarrow> pre' = pre \<and> t = n \<and> rest' = rest)
       \<and> (known t \<longrightarrow> (\<exists>w. pre = pre' @ t # w))"
  using assms
proof (induction pre arbitrary: pre')
  case Nil
  then show ?case by (cases pre') auto
next
  case (Cons a pre)
  show ?case
  proof (cases pre')
    case Nil
    with Cons.prems show ?thesis by auto
  next
    case (Cons b q)
    with Cons.prems Cons.IH[of q] show ?thesis by auto
  qed
qed
subsection \<open>Runs on the description files above\<close>

lemma length_concat_replicate: "length (concat (replicate n xs)) = n * length xs"
  by (induction n) auto

lemma f_full_plain: "list_all plain_line (replicate 8 (replicate 254 (CHR ''x'')))"
  by (simp add: list_all_iff plain_line_def NL_def NUL_def)

lemma f_full_skip: "skip_header 8 f_full = Some ''enumerator bogus\<newline>''"
  using skip_header_lines[OF f_full_plain] by (simp add: f_full_def)

lemma f_full_strings: "header_strings 8 f_full = replicate 8 (replicate 254 (CHR ''x''))"
  using header_strings_lines[OF f_full_plain] by (simp add: f_full_def)

lemma f_full_tokens: "tokens ''enumerator bogus\<newline>'' = [''enumerator'', ''bogus'']"
  by code_simp

lemma f_full_length: "length (rom_content (header_strings 8 f_full) [''enumerator'']) = 2051"
proof -
  have "libname (entry_of ''enumerator'') = ''enumerator''"
    by code_simp
  then show ?thesis
    by (simp add: f_full_strings rom_content_def length_concat_replicate)
qed

lemma f_full_overflows: "\<exists>st. main schar f_full = Inl (RomOverflow, st)"
proof (rule main_overflows[OF f_full_skip f_full_tokens])
  show "\<not> is_comment (cstr ''enumerator'')" by code_simp
  show "known (cstr ''enumerator'')" by code_simp
  have "cstr ''enumerator'' = ''enumerator''" by code_simp
  then show "ENUMROMSZ < length (rom_content (header_strings 8 f_full) [cstr ''enumerator''])"
    by (simp add: f_full_length ENUMROMSZ_def)
qed

lemma f1_lines:
  "f1 = text_lines [''a'', ''b'', ''c'', ''d'', ''e'', ''f'', ''g'', ''h''] @ ''servo4\<newline>#x null\<newline>''"
  by (simp add: f1_def text_lines_def NL_def)

lemma f1_names: "peri_names ''servo4\<newline>#x null\<newline>'' = [''servo4'', ''null'']"
  by code_simp

lemma f1_runs: "\<exists>st. main schar f1 = Inr st"
  unfolding f1_lines
proof (rule main_succeeds)
  show "list_all plain_line [''a'', ''b'', ''c'', ''d'', ''e'', ''f'', ''g'', ''h'']"
    by code_simp
  show "length [''a'', ''b'', ''c'', ''d'', ''e'', ''f'', ''g'', ''h''] = 8"
    by simp
  show "list_all known (peri_names ''servo4\<newline>#x null\<newline>'')"
    unfolding f1_names by code_simp
  show "length (rom_content [''a'', ''b'', ''c'', ''d'', ''e'', ''f'', ''g'', ''h'']
          (peri_names ''servo4\<newline>#x null\<newline>'')) \<le> ENUMROMSZ"
    unfolding f1_names by code_simp
qed

lemma f_long_skip: "skip_header 8 f_long = Some ''\<newline>''"
  by code_simp

lemma f_long_names: "peri_names ''\<newline>'' = []"
  by code_simp

lemma f_long_runs: "\<exists>st. main schar f_long = Inr st"
proof (rule main_succeeds_gen[OF f_long_skip])
  show "list_all known (peri_names ''\<newline>'')"
    by (simp add: f_long_names)
  show "length (rom_content (header_strings 8 f_long) (peri_names ''\<newline>'')) \<le> ENUMROMSZ"
    unfolding f_long_names by code_simp
qed

lemma f_big_plain: "list_all plain_line (replicate 8 (replicate 100 (CHR ''x'')))"
  by (simp add: list_all_iff plain_line_def NL_def NUL_def)

lemma f_big_names: "peri_names ''null\<newline>'' = [''null'']"
  by code_simp

lemma f_big_runs: "\<exists>st. main schar f_big = Inr st"
  unfolding f_big_def
proof (rule main_succeeds[OF f_big_plain])
  show "length (replicate 8 (replicate 100 (CHR ''x''))) = 8"
    by simp
  show "list_all known (peri_names ''null\<newline>'')"
    unfolding f_big_names by code_simp
  have "libname (entry_of ''null'') = ''null''"
    by code_simp
  then show "length (rom_content (replicate 8 (replicate 100 (CHR ''x''))) (peri_names ''null\<newline>''))
          \<le> ENUMROMSZ"
    by (simp add: f_big_names rom_content_def length_concat_replicate ENUMROMSZ_def)
qed

lemma f_latin1_skip: "skip_header 8 f_latin1 = Some []"
  by code_simp

lemma f_latin1_runs: "\<exists>st. main schar f_latin1 = Inr st"
proof (rule main_succeeds_gen[OF f_latin1_skip])
  show "list_all known (peri_names [])"
    by simp
  show "length (rom_content (header_strings 8 f_latin1) (peri_names [])) \<le> ENUMROMSZ"
    by code_simp
qed

subsection \<open>Claims about whole runs\<close>

text \<open>
  Claim C1. A description file is valid when it has eight header reads, every token
  after them fits the array \<open>peri\<close>, every peripheral name (the tokens that are not
  comments) is in the table, and the header strings and library names fit the ROM
  image. On such a file the run ends with \<open>exit(0)\<close>; there is one call, and one line
  of \<open>includes.tmp\<close>, per name; call \<open>k\<close> is for the address \<open>k\<close> and the pin that
  is the sum of the pin counts of the names before it; the pin ranges of two different
  instances are disjoint, and together they are the range from 0 to the final pin.
  No token was stored beyond the end of \<open>peri\<close>.
\<close>

theorem C1_addresses_and_pins_in_file_order:
  assumes "skip_header 8 descfile = Some s" and "list_all fits_peri (tokens s)"
    and "names = peri_names s" and "list_all known names"
    and "length (rom_content (header_strings 8 descfile) names) \<le> ENUMROMSZ"
  shows "\<exists>st. main schar descfile = Inr st
       \<and> length (calls st) = length names
       \<and> (\<forall>k < length names. \<exists>a p. calls st ! k = (find_peri (names ! k), a, p)
                                      \<and> sint a = int k \<and> sint p = pin_start names k)
       \<and> sint (slot st) = int (length names)
       \<and> length (pincludes st) = length names
       \<and> sint (pin st) = pin_start names (length names)
       \<and> (\<forall>j k. j < k \<and> k < length names \<longrightarrow> pin_range names j \<inter> pin_range names k = {})
       \<and> (\<Union>k < length names. pin_range names k) = {0 ..< sint (pin st)}
       \<and> (\<forall>n. Beyond_peri n \<notin> set (oob st))"
proof -
  from main_succeeds_gen[OF assms(1) assms(4)[unfolded assms(3)] assms(5)[unfolded assms(3)]]
  obtain st where m: "main schar descfile = Inr st"
    by blast
  from assms(1) have ah: "after_header descfile = s"
    by (rule after_header_skip)
  with assms(3) have n: "names = peri_names (after_header descfile)"
    by simp
  from main_Inr_chain[OF m n]
  have c: "calls st = chain 0 0 names" and pi: "pincludes st = includes_of names"
    by simp_all
  from main_cursors_bounded[OF m n]
  have len: "length names \<le> 512" and sl: "sint (slot st) = int (length names)"
    and pn: "sint (pin st) = pin_start names (length names)"
    and b: "\<forall>k \<le> length names. 0 \<le> pin_start names k \<and> pin_start names k \<le> 4096"
    by blast+
  have 1: "\<forall>k < length names. \<exists>a p. calls st ! k = (find_peri (names ! k), a, p)
                                      \<and> sint a = int k \<and> sint p = pin_start names k"
  proof (intro allI impI)
    fix k assume k: "k < length names"
    with len have "k < 2 ^ 31" by simp
    then have "sint (of_nat k :: cint) = int k"
      by (rule sint_of_nat_small)
    moreover from b k have "0 \<le> pin_start names k" "pin_start names k \<le> 4096"
      by simp_all
    then have "sint (word_of_int (pin_start names k) :: cint) = pin_start names k"
      by (intro sint_of_int_small) simp_all
    ultimately show "\<exists>a p. calls st ! k = (find_peri (names ! k), a, p)
                           \<and> sint a = int k \<and> sint p = pin_start names k"
      using chain_nth[OF k, of 0 0] by (simp add: c)
  qed
  have 2: "\<forall>j k. j < k \<and> k < length names \<longrightarrow> pin_range names j \<inter> pin_range names k = {}"
    by (simp add: pin_range_disjoint)
  have 3: "(\<Union>k < length names. pin_range names k) = {0 ..< sint (pin st)}"
    by (simp add: pin_range_union pn)
  have 4: "\<forall>n. Beyond_peri n \<notin> set (oob st)"
    using main_oob_peri[of descfile _ schar] assms(2) by (simp add: ah m final_def)
  from m c sl pn pi 1 2 3 4 show ?thesis
    by (simp add: includes_of_def)
qed

theorem C1_addresses_and_pins_in_file_order_witness:
  "case main False f1 of
     Inl e \<Rightarrow> False
   | Inr st \<Rightarrow> length (calls st) = 2
       \<and> (case calls st ! 1 of (i, a, p) \<Rightarrow> i = 42 \<and> sint a = 1 \<and> sint p = 4)
       \<and> sint (slot st) = 2 \<and> sint (pin st) = 4 \<and> (\<forall>n. Beyond_peri n \<notin> set (oob st))"
proof -
  let ?names = "[''servo4'', ''null'']"
  have s: "skip_header 8 f1 = Some ''servo4\<newline>#x null\<newline>''"
    by code_simp
  have t: "list_all fits_peri (tokens ''servo4\<newline>#x null\<newline>'')"
    by code_simp
  have n: "?names = peri_names ''servo4\<newline>#x null\<newline>''"
    by (simp add: f1_names)
  have k: "list_all known ?names"
    by code_simp
  have l: "length (rom_content (header_strings 8 f1) ?names) \<le> ENUMROMSZ"
    by code_simp
  from C1_addresses_and_pins_in_file_order [OF s t n k l, of False]
  obtain st where m: "main False f1 = Inr st"
    and c1: "length (calls st) = length ?names"
    and c2: "\<forall>k < length ?names. \<exists>a p. calls st ! k = (find_peri (?names ! k), a, p)
                                  \<and> sint a = int k \<and> sint p = pin_start ?names k"
    and c3: "sint (slot st) = int (length ?names)"
    and c4: "sint (pin st) = pin_start ?names (length ?names)"
    and c5: "\<forall>n. Beyond_peri n \<notin> set (oob st)"
    by (elim exE conjE) (rule that)
  have lt: "1 < length ?names"
    by simp
  have v: "find_peri (?names ! 1) = 42" "pin_start ?names 1 = 4"
    "pin_start ?names (length ?names) = 4"
    by code_simp+
  from c2[rule_format, OF lt] obtain a p where
    "calls st ! 1 = (find_peri (?names ! 1), a, p)" "sint a = int 1" "sint p = pin_start ?names 1"
    by blast
  then have ap: "calls st ! 1 = (42, a, p)" "sint a = 1" "sint p = 4"
    unfolding v by simp_all
  have r1: "length (calls st) = 2"
    using c1 by simp
  have r3: "sint (slot st) = 2"
    using c3 by simp
  have r4: "sint (pin st) = 4"
    using c4 unfolding v(3) .
  from r1 ap r3 r4 c5 show ?thesis
    by (simp add: m)
qed

text \<open>
  Claim C2, as amended. When the first eight lines of the description file each have
  at most 254 characters, no NUL, and end with a newline, and the run ends with
  \<open>exit(0)\<close>, the ROM image is: these eight lines, each without its newline and
  followed by NUL, in the order of the file; then the library name of each peripheral
  name that follows them, each followed by NUL, in the order of the instances; then
  zeros up to the offset 2047.
\<close>

theorem C2_rom_image_of_header_and_library_names:
  assumes "main schar descfile = Inr st"
    and "descfile = text_lines hs @ s" and "length hs = 8" and "list_all plain_line hs"
  shows "rom st = zero_filled (rom_content hs (peri_names s))
       \<and> length (rom_content hs (peri_names s)) \<le> ENUMROMSZ
       \<and> length (rom st) = ENUMROMSZ
       \<and> rom st = spec_rom descfile"
proof -
  have hs: "header_strings 8 descfile = hs"
    using header_strings_lines[OF assms(4), of s] assms(2,3) by simp
  have ah: "after_header descfile = s"
    using after_header_lines[OF assms(4,3), of s] assms(2) by simp
  have fl: "first_lines 8 descfile = (hs, s)"
    using first_lines_text_lines[OF assms(4), of s] assms(2,3) by simp
  note r = main_rom[OF assms(1), unfolded hs ah]
  from r(2,3) have le: "length (rom_content hs (peri_names s)) \<le> ENUMROMSZ"
    by simp
  with r(1) have "length (rom st) = ENUMROMSZ"
    by (simp add: length_zero_filled)
  with r(1) le fl show ?thesis
    by (simp add: spec_rom_def)
qed

theorem C2_rom_image_of_header_and_library_names_witness:
  "case main False f1 of
     Inl r \<Rightarrow> False
   | Inr st \<Rightarrow> rom st = spec_rom f1 \<and> length (rom st) = ENUMROMSZ"
proof -
  from f1_runs obtain st where m: "main False f1 = Inr st"
    by blast
  have p: "list_all plain_line [''a'', ''b'', ''c'', ''d'', ''e'', ''f'', ''g'', ''h'']"
    by code_simp
  have l: "length [''a'', ''b'', ''c'', ''d'', ''e'', ''f'', ''g'', ''h''] = 8"
    by simp
  from C2_rom_image_of_header_and_library_names [OF m f1_lines l p]
  have "rom st = spec_rom f1" "length (rom st) = ENUMROMSZ"
    by blast+
  then show ?thesis
    by (simp add: m)
qed

text \<open>
  Claim C2, as stated, fails on the file \<open>f_long\<close>, whose first line has 300
  characters: \<open>fgets\<close> reads it in two parts, so the image holds the first 254
  characters and NUL where the line of the file goes on.
\<close>

theorem C2_rom_image_of_header_and_library_names_counterexample:
  "case main False f_long of
     Inl r \<Rightarrow> False
   | Inr st \<Rightarrow> rom st ! 254 = NUL \<and> spec_rom f_long ! 254 = CHR ''x'' \<and> rom st \<noteq> spec_rom f_long"
proof -
  from f_long_runs obtain st where m: "main False f_long = Inr st"
    by blast
  let ?code = "rom_content (header_strings 8 f_long) []"
  let ?spec = "rom_content (fst (first_lines 8 f_long)) (peri_names (snd (first_lines 8 f_long)))"
  have c: "254 < length ?code" "?code ! 254 = NUL"
    by code_simp+
  have s: "254 < length ?spec" "?spec ! 254 = CHR ''x''"
    by code_simp+
  from main_rom(1)[OF m] have "rom st = zero_filled ?code"
    by (simp add: after_header_skip[OF f_long_skip] f_long_names)
  with c have 1: "rom st ! 254 = NUL"
    by (simp add: nth_zero_filled)
  have "spec_rom f_long = zero_filled ?spec"
    by (simp add: spec_rom_def split: prod.splits)
  with s have 2: "spec_rom f_long ! 254 = CHR ''x''"
    by (simp add: nth_zero_filled)
  from 1 2 have "rom st \<noteq> spec_rom f_long"
    by (auto simp: NUL_def)
  with 1 2 show ?thesis
    by (simp add: m)
qed

text \<open>
  Claim C3. The run behaves as if the offset were compared with the capacity after
  every append, the eight appends of the header lines included: \<open>main_checked\<close>,
  which does so, gives the same result as \<open>main\<close> on every file. An offset above
  the capacity is never followed by another append: in a run that ends with
  \<open>exit(0)\<close> no offset exceeds 2048, and in a run that ends with \<open>exit(1)\<close> only
  the last one can; the run stopped for the ROM overflow exactly when it does, and
  it has printed neither the closing marker nor the ROM listing.
\<close>

theorem C3_offset_above_capacity_ends_the_run:
  "main_checked schar descfile = main schar descfile
   \<and> (\<forall>st. main schar descfile = Inr st \<longrightarrow> (\<forall>x \<in> set (offsets st). x \<le> ENUMROMSZ))
   \<and> (\<forall>e st. main schar descfile = Inl (e, st) \<longrightarrow>
         (\<forall>x \<in> set (butlast (offsets st)). x \<le> ENUMROMSZ)
         \<and> (e = RomOverflow \<longleftrightarrow> offsets st \<noteq> [] \<and> ENUMROMSZ < last (offsets st))
         \<and> penumlst st = [] \<and> endmodule \<notin> set (stdout st))"
proof (intro conjI allI impI)
  show "main_checked schar descfile = main schar descfile"
    by (rule main_checked_eq)
next
  fix st assume m: "main schar descfile = Inr st"
  then obtain st0 s st2 where h: "read_header 8 init descfile = Inr (st0, s)"
    and a: "advanced st0 (peri_names s) st2"
    and st: "st = st2\<lparr>stdout := stdout st2 @ [endmodule], penumlst := enumerator_lst schar (rom st2)\<rparr>"
    by (rule main_Inr)
  from a obtain xs where "offsets st2 = offsets st0 @ xs" "\<forall>x \<in> set xs. x \<le> ENUMROMSZ"
    unfolding advanced_def by blast
  with read_header_init(9)[OF h] show "\<forall>x \<in> set (offsets st). x \<le> ENUMROMSZ"
    by (auto simp: st ENUMROMSZ_def)
next
  fix e st assume m: "main schar descfile = Inl (e, st)"
  have "(\<forall>x \<in> set (butlast (offsets st)). x \<le> ENUMROMSZ)
         \<and> (e = RomOverflow \<longleftrightarrow> offsets st \<noteq> [] \<and> ENUMROMSZ < last (offsets st))
         \<and> penumlst st = [] \<and> endmodule \<notin> set (stdout st)"
  proof (cases descfile rule: main_cases[where schar = schar])
    case (header st')
    with m have eq: "e = NotEnoughRomStrings" "st' = st" by simp_all
    note f = header_stop_facts[OF header(1)[unfolded eq]]
    from f(2) have all: "\<forall>x \<in> set (offsets st). x \<le> ENUMROMSZ"
      by (force simp: ENUMROMSZ_def)
    then have "\<forall>x \<in> set (butlast (offsets st)). x \<le> ENUMROMSZ"
      by (meson in_set_butlastD)
    moreover from all have "offsets st \<noteq> [] \<longrightarrow> \<not> ENUMROMSZ < last (offsets st)"
      by (meson last_in_set not_le)
    ultimately show ?thesis using f(3,4) eq by auto
  next
    case (stop st0 s r)
    with m have r: "run_tokens st0 (tokens s) = Inl (e, st)" by simp
    from stop(1) r obtain pre tok rest st1 where "peri_names s = pre @ cstr tok # rest"
      and s: "stopped st1 tok (e, st)"
      and o: "\<forall>x \<in> set (offsets st1). x \<le> ENUMROMSZ"
      and w: "endmodule \<notin> set (stdout st1)" "penumlst st1 = []"
      by (rule main_stop)
    note f = stopped_facts[OF s]
    show ?thesis
    proof (cases "known (cstr tok)")
      case True
      from f(3)[OF True] o f(1) f(2)[OF w(1)] w(2) show ?thesis by simp
    next
      case False
      from f(5)[OF False] o have "\<forall>x \<in> set (offsets st). x \<le> ENUMROMSZ" by simp
      then have "\<forall>x \<in> set (butlast (offsets st)). x \<le> ENUMROMSZ"
        and "offsets st \<noteq> [] \<longrightarrow> \<not> ENUMROMSZ < last (offsets st)"
        by (meson in_set_butlastD, meson last_in_set not_le)
      with f(5)[OF False] f(1) f(2)[OF w(1)] w(2) show ?thesis by auto
    qed
  next
    case (finish st0 s st2)
    with m show ?thesis by simp
  qed
  then show "\<forall>x \<in> set (butlast (offsets st)). x \<le> ENUMROMSZ"
    and "e = RomOverflow \<longleftrightarrow> offsets st \<noteq> [] \<and> ENUMROMSZ < last (offsets st)"
    and "penumlst st = []" and "endmodule \<notin> set (stdout st)"
    by blast+
qed

theorem C3_offset_above_capacity_ends_the_run_witness:
  "(case main False f1 of
      Inl r \<Rightarrow> False
    | Inr st \<Rightarrow> \<forall>x \<in> set (offsets st). x \<le> ENUMROMSZ)
   \<and> (case main False f_full of
        Inl (e, st) \<Rightarrow> e = RomOverflow \<and> offsets st \<noteq> [] \<and> ENUMROMSZ < last (offsets st)
                        \<and> penumlst st = [] \<and> endmodule \<notin> set (stdout st)
      | Inr st \<Rightarrow> False)"
proof -
  from f1_runs obtain st1 where m1: "main False f1 = Inr st1"
    by blast
  from f_full_overflows obtain st2 where m2: "main False f_full = Inl (RomOverflow, st2)"
    by blast
  from C3_offset_above_capacity_ends_the_run [of False f1] m1
  have "\<forall>x \<in> set (offsets st1). x \<le> ENUMROMSZ"
    by blast
  moreover from C3_offset_above_capacity_ends_the_run [of False f_full] m2
  have "offsets st2 \<noteq> [] \<and> ENUMROMSZ < last (offsets st2) \<and> penumlst st2 = []
        \<and> endmodule \<notin> set (stdout st2)"
    by blast
  ultimately show ?thesis
    by (simp add: m1 m2)
qed

text \<open>
  Claim C8, as amended. Let the tokens of the file fit the array \<open>peri\<close>, and let
  one of its peripheral names not be in the table; \<open>n\<close> is the first such name and
  \<open>pre\<close> are the names before it. Then the run ends with \<open>exit(1)\<close>, and it has
  printed neither the closing marker nor the ROM listing. If the header strings and
  the library names of \<open>pre\<close> fit the ROM image, the reason names \<open>n\<close>, and the
  calls, the wiring, the lines of \<open>includes.tmp\<close> and the ROM image are those of the
  names before it: nothing was emitted for \<open>n\<close> itself. If they do not fit, the run
  has ended before \<open>n\<close> was read, for the ROM overflow at the first peripheral
  \<open>pre ! m\<close> whose library name takes the offset above the capacity.
\<close>

theorem C8_unknown_peripheral_aborts_the_run:
  assumes "list_all fits_peri (tokens (after_header descfile))"
    and "u \<in> set (peri_names (after_header descfile))" and "\<not> known u"
  shows "\<exists>e st pre n rest. main schar descfile = Inl (e, st)
           \<and> penumlst st = [] \<and> endmodule \<notin> set (stdout st)
           \<and> (\<forall>k. Beyond_peri k \<notin> set (oob st))
           \<and> peri_names (after_header descfile) = pre @ n # rest
           \<and> list_all known pre \<and> \<not> known n
           \<and> (if length (rom_content (header_strings 8 descfile) pre) \<le> ENUMROMSZ
              then e = UnknownPeripheral n
                   \<and> calls st = chain 0 0 pre \<and> pincludes st = includes_of pre
                   \<and> stdout st = wiring_of 0 0 pre \<and> length (offsets st) = 8 + length pre
                   \<and> rom st = zero_filled (rom_content (header_strings 8 descfile) pre)
              else e = RomOverflow \<and> last (stdout st) = overflow_message
                   \<and> (\<exists>m < length pre.
                         length (offsets st) = 8 + Suc m
                         \<and> last (offsets st)
                             = length (rom_content (header_strings 8 descfile) (take (Suc m) pre))
                         \<and> ENUMROMSZ < last (offsets st)
                         \<and> length (rom_content (header_strings 8 descfile) (take m pre))
                             \<le> ENUMROMSZ))"
proof -
  let ?hs = "header_strings 8 descfile"
  from first_unknown[OF assms(2,3)] obtain P n R where
    d: "peri_names (after_header descfile) = P @ n # R" and kP: "list_all known P"
    and un: "\<not> known n"
    by blast
  show ?thesis
  proof (cases descfile rule: main_cases[where schar = schar])
    case (header st')
    then have "after_header descfile = []" by (simp add: after_header_def)
    with assms(2) show ?thesis by simp
  next
    case (finish st0 s st2)
    from run_tokens_Inr[OF finish(2)] have "list_all known (peri_names s)"
      by (simp add: peri_names_def)
    moreover from finish(1) have "after_header descfile = s" by (simp add: after_header_def)
    ultimately show ?thesis using assms(2,3) by (auto simp: list_all_iff)
  next
    case (stop st0 s r)
    obtain e st where r: "r = (e, st)" by (cases r)
    from stop(1) have ah: "after_header descfile = s" by (simp add: after_header_def)
    from stop(1) stop(2)[unfolded r] obtain pre tok rest st1 where
      n: "peri_names s = pre @ cstr tok # rest" and k: "list_all known pre"
      and a: "advanced st0 pre st1"
      and s: "stopped st1 tok (e, st)"
      and o: "length (offsets st1) = 8 + length pre"
      and w: "endmodule \<notin> set (stdout st1)" "penumlst st1 = []"
      and c: "calls st1 = chain 0 0 pre" "pincludes st1 = includes_of pre"
        "stdout st1 = wiring_of 0 0 pre"
      by (rule main_stop)
    note f = stopped_facts[OF s]
    have fin: "penumlst st = []" "endmodule \<notin> set (stdout st)"
      using f(1) f(2)[OF w(1)] w(2) by simp_all
    have nb: "\<forall>k. Beyond_peri k \<notin> set (oob st)"
      using main_oob_peri[OF assms(1), of _ schar] by (simp add: stop(3) r final_def)
    from d n ah have "P @ n # R = pre @ cstr tok # rest" by simp
    note uq = first_unknown_unique[OF this kP un k]
    have "length ([]::char list) + 255 * 8 \<le> ENUMROMSZ"
      by (simp add: ENUMROMSZ_def)
    from read_header_rom[OF stop(1) zero_filled_Nil _ this]
    have r0: "rom st0 = zero_filled (rom_content ?hs [])" "romindx st0 = length (rom_content ?hs [])"
      by (simp_all add: init_def)
    from read_header_init(10)[OF stop(1)] have "romindx st0 \<le> ENUMROMSZ"
      by (simp add: ENUMROMSZ_def)
    with a have le: "romindx st1 \<le> ENUMROMSZ"
      and ri: "romindx st1 = romindx st0 + length (rom_content [] pre)"
      and rc: "\<forall>c. rom st0 = zero_filled c \<and> romindx st0 = length c \<and> romindx st1 \<le> ENUMROMSZ \<longrightarrow>
                rom st1 = zero_filled (c @ rom_content [] pre)"
      unfolding advanced_def by blast+
    from ri r0(2) have ri1: "romindx st1 = length (rom_content ?hs pre)"
      using rom_content_split[of ?hs pre] by simp
    from rc r0 le have "rom st1 = zero_filled (rom_content ?hs [] @ rom_content [] pre)"
      by blast
    then have rom1: "rom st1 = zero_filled (rom_content ?hs pre)"
      using rom_content_split[of ?hs pre] by simp
    show ?thesis
    proof (cases "known (cstr tok)")
      case False
      with uq have eq: "pre = P" "cstr tok = n" "rest = R" by simp_all
      from le ri1 have fit: "length (rom_content ?hs pre) \<le> ENUMROMSZ" by simp
      from f(5)[OF False] o c rom1
      have "e = UnknownPeripheral n" "calls st = chain 0 0 pre"
        "pincludes st = includes_of pre" "stdout st = wiring_of 0 0 pre"
        "length (offsets st) = 8 + length pre" "rom st = zero_filled (rom_content ?hs pre)"
        by (simp_all add: eq)
      with fit have "if length (rom_content ?hs pre) \<le> ENUMROMSZ
              then e = UnknownPeripheral n
                   \<and> calls st = chain 0 0 pre \<and> pincludes st = includes_of pre
                   \<and> stdout st = wiring_of 0 0 pre \<and> length (offsets st) = 8 + length pre
                   \<and> rom st = zero_filled (rom_content ?hs pre)
              else e = RomOverflow \<and> last (stdout st) = overflow_message
                   \<and> (\<exists>m < length pre.
                         length (offsets st) = 8 + Suc m
                         \<and> last (offsets st) = length (rom_content ?hs (take (Suc m) pre))
                         \<and> ENUMROMSZ < last (offsets st)
                         \<and> length (rom_content ?hs (take m pre)) \<le> ENUMROMSZ)"
        by simp
      with fin nb d kP un eq stop(3) r show ?thesis by blast
    next
      case True
      with uq obtain w where P: "P = pre @ cstr tok # w" by blast
      let ?m = "length pre"
      from True have lt: "find_peri (cstr tok) < NPERI"
        by (simp add: known_def find_peri_less)
      from f(4)[OF True] libname_cstr[OF lt] ri1
      have ro: "romindx st = length (rom_content ?hs (pre @ [cstr tok]))"
        using rom_content_split[of ?hs "pre @ [cstr tok]"] rom_content_split[of ?hs pre]
        by (simp add: strlen_def rom_content_append rom_content_def entry_of_def)
      from f(3)[OF True] have e: "e = RomOverflow" and of: "offsets st = offsets st1 @ [romindx st]"
        and ov: "ENUMROMSZ < romindx st"
        by simp_all
      have tk: "take (Suc ?m) P = pre @ [cstr tok]" "take ?m P = pre" "?m < length P"
        by (simp_all add: P)
      have "length (rom_content ?hs (pre @ [cstr tok])) \<le> length (rom_content ?hs P)"
        using rom_content_split[of ?hs "pre @ [cstr tok]"] rom_content_split[of ?hs P]
        by (simp add: P rom_content_def)
      with ov ro have nofit: "\<not> length (rom_content ?hs P) \<le> ENUMROMSZ" by simp
      have "\<exists>m < length P.
               length (offsets st) = 8 + Suc m
               \<and> last (offsets st) = length (rom_content ?hs (take (Suc m) P))
               \<and> ENUMROMSZ < last (offsets st)
               \<and> length (rom_content ?hs (take m P)) \<le> ENUMROMSZ"
      proof (intro exI[of _ ?m] conjI)
        show "?m < length P" by (rule tk(3))
        show "length (offsets st) = 8 + Suc ?m" using of o by simp
        show "last (offsets st) = length (rom_content ?hs (take (Suc ?m) P))"
          using of ro by (simp add: tk(1))
        show "ENUMROMSZ < last (offsets st)" using of ov by simp
        show "length (rom_content ?hs (take ?m P)) \<le> ENUMROMSZ"
          using le ri1 by (simp add: tk(2))
      qed
      with nofit e f(4)[OF True]
      have "if length (rom_content ?hs P) \<le> ENUMROMSZ
              then e = UnknownPeripheral n
                   \<and> calls st = chain 0 0 P \<and> pincludes st = includes_of P
                   \<and> stdout st = wiring_of 0 0 P \<and> length (offsets st) = 8 + length P
                   \<and> rom st = zero_filled (rom_content ?hs P)
              else e = RomOverflow \<and> last (stdout st) = overflow_message
                   \<and> (\<exists>m < length P.
                         length (offsets st) = 8 + Suc m
                         \<and> last (offsets st) = length (rom_content ?hs (take (Suc m) P))
                         \<and> ENUMROMSZ < last (offsets st)
                         \<and> length (rom_content ?hs (take m P)) \<le> ENUMROMSZ)"
        by simp
      with fin nb d kP un stop(3) r show ?thesis by blast
    qed
  qed
qed

theorem C8_unknown_peripheral_aborts_the_run_witness:
  "list_all fits_peri (tokens (after_header f_unknown))
   \<and> ''foo'' \<in> set (peri_names (after_header f_unknown)) \<and> \<not> known ''foo''
   \<and> (case main False f_unknown of
        Inl (e, st) \<Rightarrow> e = UnknownPeripheral ''foo''
                        \<and> calls st = chain 0 0 [''servo4''] \<and> length (pincludes st) = 1
                        \<and> length (offsets st) = 9
                        \<and> penumlst st = [] \<and> endmodule \<notin> set (stdout st)
      | Inr st \<Rightarrow> False)
   \<and> list_all fits_peri (tokens (after_header f_full))
   \<and> ''bogus'' \<in> set (peri_names (after_header f_full)) \<and> \<not> known ''bogus''
   \<and> (case main False f_full of
        Inl (e, st) \<Rightarrow> e = RomOverflow \<and> last (stdout st) = overflow_message
                        \<and> length (offsets st) = 9 \<and> last (offsets st) = 2051
                        \<and> penumlst st = [] \<and> endmodule \<notin> set (stdout st)
      | Inr st \<Rightarrow> False)"
proof -
  have "skip_header 8 f_unknown = Some ''servo4\<newline>foo\<newline>null\<newline>''"
    by code_simp
  then have a: "after_header f_unknown = ''servo4\<newline>foo\<newline>null\<newline>''"
    by (rule after_header_skip)
  have t: "list_all fits_peri (tokens (after_header f_unknown))"
    unfolding a by code_simp
  have ns: "peri_names (after_header f_unknown) = [''servo4''] @ ''foo'' # [''null'']"
    unfolding a by code_simp
  then have u: "''foo'' \<in> set (peri_names (after_header f_unknown))"
    by simp
  have k: "\<not> known ''foo''" "list_all known [''servo4'']"
    by code_simp+
  have fit: "length (rom_content (header_strings 8 f_unknown) [''servo4'']) \<le> ENUMROMSZ"
    by code_simp
  from C8_unknown_peripheral_aborts_the_run [OF t u k(1), of False]
  obtain e st pre n rest where m: "main False f_unknown = Inl (e, st)"
    and fin: "penumlst st = []" "endmodule \<notin> set (stdout st)"
    and d: "peri_names (after_header f_unknown) = pre @ n # rest"
      "list_all known pre" "\<not> known n"
    and c: "if length (rom_content (header_strings 8 f_unknown) pre) \<le> ENUMROMSZ
            then e = UnknownPeripheral n
                 \<and> calls st = chain 0 0 pre \<and> pincludes st = includes_of pre
                 \<and> stdout st = wiring_of 0 0 pre \<and> length (offsets st) = 8 + length pre
                 \<and> rom st = zero_filled (rom_content (header_strings 8 f_unknown) pre)
            else e = RomOverflow \<and> last (stdout st) = overflow_message
                 \<and> (\<exists>m < length pre.
                       length (offsets st) = 8 + Suc m
                       \<and> last (offsets st)
                           = length (rom_content (header_strings 8 f_unknown) (take (Suc m) pre))
                       \<and> ENUMROMSZ < last (offsets st)
                       \<and> length (rom_content (header_strings 8 f_unknown) (take m pre))
                           \<le> ENUMROMSZ)"
    by (elim exE conjE) (rule that)
  from d(1) ns have "pre @ n # rest = [''servo4''] @ ''foo'' # [''null'']"
    by simp
  from first_unknown_unique[OF this d(2,3) k(2)] k(1)
  have eq: "pre = [''servo4'']" "n = ''foo''"
    by simp_all
  from c fit have 1: "e = UnknownPeripheral ''foo''" "calls st = chain 0 0 [''servo4'']"
    "length (pincludes st) = 1" "length (offsets st) = 9"
    by (simp_all add: eq includes_of_def)
  have a2: "after_header f_full = ''enumerator bogus\<newline>''"
    using f_full_skip by (rule after_header_skip)
  have t2: "list_all fits_peri (tokens (after_header f_full))"
    unfolding a2 f_full_tokens by code_simp
  have ns2: "peri_names (after_header f_full) = [''enumerator''] @ ''bogus'' # []"
    unfolding a2 by code_simp
  then have u2: "''bogus'' \<in> set (peri_names (after_header f_full))"
    by simp
  have k2: "\<not> known ''bogus''" "list_all known [''enumerator'']"
    by code_simp+
  from C8_unknown_peripheral_aborts_the_run [OF t2 u2 k2(1), of False]
  obtain e2 st2 pre2 n2 rest2 where m2: "main False f_full = Inl (e2, st2)"
    and fin2: "penumlst st2 = []" "endmodule \<notin> set (stdout st2)"
    and d2: "peri_names (after_header f_full) = pre2 @ n2 # rest2"
      "list_all known pre2" "\<not> known n2"
    and c2: "if length (rom_content (header_strings 8 f_full) pre2) \<le> ENUMROMSZ
            then e2 = UnknownPeripheral n2
                 \<and> calls st2 = chain 0 0 pre2 \<and> pincludes st2 = includes_of pre2
                 \<and> stdout st2 = wiring_of 0 0 pre2 \<and> length (offsets st2) = 8 + length pre2
                 \<and> rom st2 = zero_filled (rom_content (header_strings 8 f_full) pre2)
            else e2 = RomOverflow \<and> last (stdout st2) = overflow_message
                 \<and> (\<exists>m < length pre2.
                       length (offsets st2) = 8 + Suc m
                       \<and> last (offsets st2)
                           = length (rom_content (header_strings 8 f_full) (take (Suc m) pre2))
                       \<and> ENUMROMSZ < last (offsets st2)
                       \<and> length (rom_content (header_strings 8 f_full) (take m pre2))
                           \<le> ENUMROMSZ)"
    by (elim exE conjE) (rule that)
  from d2(1) ns2 have "pre2 @ n2 # rest2 = [''enumerator''] @ ''bogus'' # []"
    by simp
  from first_unknown_unique[OF this d2(2,3) k2(2)] k2(1)
  have eq2: "pre2 = [''enumerator'']"
    by simp
  have "\<not> length (rom_content (header_strings 8 f_full) [''enumerator'']) \<le> ENUMROMSZ"
    by (simp add: f_full_length ENUMROMSZ_def)
  with c2 have 2: "e2 = RomOverflow" "last (stdout st2) = overflow_message"
    "length (offsets st2) = 9" "last (offsets st2) = 2051"
    by (simp_all add: eq2 f_full_length)
  from t u k(1) fin 1 t2 u2 k2(1) fin2 2 show ?thesis
    by (simp add: m m2)
qed

text \<open>
  Claim C8, as stated, fails on the file \<open>f_full\<close>: its name \<open>bogus\<close> is not in the
  table, but the run ends for the ROM overflow at the peripheral before it, and the
  reason does not name \<open>bogus\<close>.
\<close>

theorem C8_unknown_peripheral_aborts_the_run_counterexample:
  "''bogus'' \<in> set (peri_names (after_header f_full)) \<and> \<not> known ''bogus''
   \<and> (case main False f_full of
        Inl (e, st) \<Rightarrow> e = RomOverflow \<and> e \<noteq> UnknownPeripheral ''bogus''
      | Inr st \<Rightarrow> False)"
proof -
  have "peri_names ''enumerator bogus\<newline>'' = [''enumerator'', ''bogus'']"
    by code_simp
  then have "''bogus'' \<in> set (peri_names (after_header f_full))"
    by (simp add: after_header_skip[OF f_full_skip])
  moreover have "\<not> known ''bogus''"
    by code_simp
  moreover from f_full_overflows obtain st where "main False f_full = Inl (RomOverflow, st)"
    by blast
  ultimately show ?thesis
    by simp
qed

subsection \<open>The ROM listing\<close>

lemma hex_small: "0 \<le> v \<Longrightarrow> v < 16 \<Longrightarrow> hex upper v = [hexdigit upper (nat v)]"
  by (subst hex.simps) simp

lemma fmt_02x_byte:
  assumes "0 \<le> v" and "v < 256"
  shows "fmt_02x upper v = [hexdigit upper (nat (v div 16)), hexdigit upper (nat (v mod 16))]"
proof (cases "v < 16")
  case True
  with assms show ?thesis
    by (simp add: fmt_02x_def hex_small hexdigit_def)
next
  case False
  with assms have "0 \<le> v div 16" "v div 16 < 16" by simp_all
  then have "hex upper (v div 16) = [hexdigit upper (nat (v div 16))]"
    by (rule hex_small)
  with False have "hex upper v = [hexdigit upper (nat (v div 16)), hexdigit upper (nat (v mod 16))]"
    by (subst hex.simps) simp
  then show ?thesis
    by (simp add: fmt_02x_def)
qed

lemma less_16_cases:
  "a < 16 \<Longrightarrow> a \<in> {0, 1, 2, 3, 4, 5, 6, 7, 8, 9, 10, 11, 12, 13, 14, 15::nat}"
  by simp arith

lemma hexval_hexdigit: "a < 16 \<Longrightarrow> hexval (hexdigit False a) = Some a"
  by (drule less_16_cases) (auto simp: hexval_def hexdigit_def)

lemma unhex_byte:
  assumes "0 \<le> v" and "v < 256" and "unhex cs = Some bs"
  shows "unhex (fmt_02x False v @ cs) = Some (char_of (nat v) # bs)"
proof -
  from assms have a: "nat (v div 16) < 16" "nat (v mod 16) < 16" by simp_all
  from assms have "16 * nat (v div 16) + nat (v mod 16) = nat v"
    by (simp add: nat_div_distrib nat_mod_distrib)
  with assms a show ?thesis
    by (simp add: fmt_02x_byte hexval_hexdigit)
qed

lemma of_char_int_range: "0 \<le> (of_char c :: int) \<and> (of_char c :: int) < 256"
proof -
  have "(of_char c :: int) = int (of_char c)"
    by (simp only: of_nat_of_char)
  moreover have "(of_char c :: nat) < 256"
    by simp
  ultimately show ?thesis
    by linarith
qed

lemma as_unsigned_char:
  "\<not> schar \<or> (of_char c :: int) < 128 \<Longrightarrow> as_unsigned (char_to_int schar c) = of_char c"
  using of_char_int_range[of c]
  by (auto simp: as_unsigned_def char_to_int_def Let_def)

lemma char_of_nat_of_char: "char_of (nat (of_char c :: int)) = c"
  by simp

lemma unhex_bytes:
  "plain_bytes schar bs \<Longrightarrow>
   unhex (concat (map (\<lambda>c. fmt_02x False (as_unsigned (char_to_int schar c))) bs)) = Some bs
   \<and> length (concat (map (\<lambda>c. fmt_02x False (as_unsigned (char_to_int schar c))) bs)) = 2 * length bs"
proof (induction bs)
  case Nil
  then show ?case by simp
next
  case (Cons c bs)
  then have p: "\<not> schar \<or> (of_char c :: int) < 128" and ps: "plain_bytes schar bs"
    by (auto simp: plain_bytes_def)
  let ?f = "\<lambda>c. fmt_02x False (as_unsigned (char_to_int schar c))"
  from of_char_int_range[of c] have r: "0 \<le> (of_char c :: int)" "(of_char c :: int) < 256"
    by simp_all
  from Cons.IH[OF ps] have ih: "unhex (concat (map ?f bs)) = Some bs"
    and len: "length (concat (map ?f bs)) = 2 * length bs"
    by simp_all
  have fc: "?f c = fmt_02x False (of_char c)"
    by (simp add: as_unsigned_char[OF p])
  from unhex_byte[OF r ih] have "unhex (?f c @ concat (map ?f bs)) = Some (c # bs)"
    by (simp only: fc char_of_nat_of_char)
  moreover have "length (?f c) = 2"
    by (simp add: fc fmt_02x_byte[OF r])
  ultimately show ?case
    using len by simp
qed

lemma map_nth_chunk:
  "a + n \<le> length xs \<Longrightarrow> map (nth xs) [a ..< a + n] = take n (drop a xs)"
  by (rule nth_equalityI) auto

lemma init_payload_chunk:
  assumes "32 * i + 32 \<le> length mem"
  shows "init_payload schar mem i =
           concat (map (\<lambda>c. fmt_02x False (as_unsigned (char_to_int schar c))) (rev (chunk mem i)))"
proof -
  have "[32 * i ..< 32 * (i + 1)] = [32 * i ..< 32 * i + 32]"
    by (simp add: add.commute)
  with map_nth_chunk[OF assms]
  have "map (nth mem) [32 * i ..< 32 * (i + 1)] = chunk mem i"
    by (simp add: chunk_def)
  then have "map (nth mem) (rev [32 * i ..< 32 * (i + 1)]) = rev (chunk mem i)"
    by (simp only: rev_map[symmetric])
  then have "map (\<lambda>c. fmt_02x False (as_unsigned (char_to_int schar c)))
                 (map (nth mem) (rev [32 * i ..< 32 * (i + 1)]))
      = map (\<lambda>c. fmt_02x False (as_unsigned (char_to_int schar c))) (rev (chunk mem i))"
    by simp
  then show ?thesis
    by (simp add: init_payload_def comp_def)
qed

lemma length_chunk: "32 * i + 32 \<le> length mem \<Longrightarrow> length (chunk mem i) = 32"
  by (simp add: chunk_def)

lemma plain_bytes_chunk: "plain_bytes schar mem \<Longrightarrow> plain_bytes schar (rev (chunk mem i))"
  by (auto simp: plain_bytes_def chunk_def list_all_iff dest: in_set_takeD in_set_dropD)

lemma record_round_trip:
  assumes "plain_bytes schar mem" and "32 * i + 32 \<le> length mem"
  shows "length (init_payload schar mem i) = 64"
    and "decode_record (init_payload schar mem i) = Some (chunk mem i)"
proof -
  from unhex_bytes[OF plain_bytes_chunk[OF assms(1), of i]] length_chunk[OF assms(2)]
  have u: "unhex (init_payload schar mem i) = Some (rev (chunk mem i))"
    and l: "length (init_payload schar mem i) = 64"
    by (simp_all add: init_payload_chunk[OF assms(2)])
  show "length (init_payload schar mem i) = 64" by (rule l)
  show "decode_record (init_payload schar mem i) = Some (chunk mem i)"
    using length_chunk[OF assms(2)] by (simp add: decode_record_def u)
qed

lemma concat_chunks:
  "32 * n \<le> length mem \<Longrightarrow> concat (map (chunk mem) [0 ..< n]) = take (32 * n) mem"
proof (induction n)
  case 0
  then show ?case by simp
next
  case (Suc n)
  then have "concat (map (chunk mem) [0 ..< n]) = take (32 * n) mem" by simp
  moreover have "take (32 * Suc n) mem = take (32 * n) mem @ chunk mem n"
    using take_add[of "32 * n" 32 mem] by (simp add: add.commute chunk_def)
  ultimately show ?case by simp
qed

lemma decode_all_chunks:
  assumes "plain_bytes schar mem"
  shows "a + n \<le> 16 \<Longrightarrow> length mem = ENUMROMSZ \<Longrightarrow>
         decode_all (map (init_payload schar mem) [a ..< a + n]) = Some (concat (map (chunk mem) [a ..< a + n]))"
proof (induction n arbitrary: a)
  case 0
  then show ?case by simp
next
  case (Suc n)
  from Suc.prems have "32 * a + 32 \<le> length mem" by (simp add: ENUMROMSZ_def)
  from record_round_trip(2)[OF assms this]
  have d: "decode_record (init_payload schar mem a) = Some (chunk mem a)" .
  from Suc.prems have "Suc a + n \<le> 16" by simp
  from Suc.IH[OF this Suc.prems(2)]
  have "decode_all (map (init_payload schar mem) [Suc a ..< Suc a + n])
          = Some (concat (map (chunk mem) [Suc a ..< Suc a + n]))" .
  moreover have "[a ..< a + Suc n] = a # [Suc a ..< Suc a + n]"
    by (simp add: upt_rec)
  ultimately show ?case using d by simp
qed

lemma listing_round_trip:
  assumes "plain_bytes schar mem" and "length mem = ENUMROMSZ"
  shows "decode_all (map (init_payload schar mem) [0 ..< 16]) = Some (take 512 mem)"
proof -
  from decode_all_chunks[OF assms(1), of 0 16] assms(2)
  have "decode_all (map (init_payload schar mem) [0 ..< 16]) = Some (concat (map (chunk mem) [0 ..< 16]))"
    by simp
  moreover from concat_chunks[of 16 mem] assms(2)
  have "concat (map (chunk mem) [0 ..< 16]) = take 512 mem"
    by (simp add: ENUMROMSZ_def)
  ultimately show ?thesis by simp
qed

subsection \<open>Claims about the ROM listing\<close>

text \<open>
  Claim C4 fails on the code. The listing has 16 records of 32 bytes: it holds the
  first 512 bytes of the ROM image, and decoding it gives these 512 bytes back, not the
  2048 bytes of the buffer. On the file \<open>f_big\<close>, which uses 813 bytes of the image
  (the run ends with \<open>exit(0)\<close>, the capacity being 2048), the byte at the offset 600
  is not in the listing. (\<open>char\<close> is unsigned here; with a signed \<open>char\<close> the
  records of bytes from \<open>0x80\<close> on cannot be decoded either, see C5.)
\<close>

theorem C4_listing_holds_first_512_bytes_only:
  "case main False f_big of
     Inl r \<Rightarrow> False
   | Inr st \<Rightarrow>
       length (rom st) = 2048 \<and> rom st ! 600 = CHR ''x''
       \<and> decode_all (map (init_payload False (rom st)) [0 ..< 16]) = Some (take 512 (rom st))
       \<and> decode_all (map (init_payload False (rom st)) [0 ..< 16]) \<noteq> Some (rom st)"
proof -
  from f_big_runs obtain st where m: "main False f_big = Inr st"
    by blast
  let ?hs = "replicate 8 (replicate 100 (CHR ''x''))"
  have l: "length (rom st) = 2048"
    using main_rom_length[OF m] by (simp add: ENUMROMSZ_def)
  have "after_header f_big = ''null\<newline>''"
    unfolding f_big_def by (rule after_header_lines[OF f_big_plain]) simp
  moreover have "header_strings 8 f_big = ?hs"
    using header_strings_lines[OF f_big_plain] by (simp add: f_big_def)
  ultimately have r: "rom st = zero_filled (rom_content ?hs [''null''])"
    using main_rom(1)[OF m] by (simp add: f_big_names)
  have "600 < length (rom_content ?hs [''null''])" "rom_content ?hs [''null''] ! 600 = CHR ''x''"
    by code_simp+
  then have x: "rom st ! 600 = CHR ''x''"
    by (simp add: r nth_zero_filled)
  have "plain_bytes False (rom st)"
    by (simp add: plain_bytes_def)
  from listing_round_trip[OF this main_rom_length[OF m]]
  have d: "decode_all (map (init_payload False (rom st)) [0 ..< 16]) = Some (take 512 (rom st))" .
  have "length (take 512 (rom st)) \<noteq> length (rom st)"
    using l by simp
  then have "take 512 (rom st) \<noteq> rom st"
    by metis
  with d l x show ?thesis
    by (simp add: m)
qed

text \<open>
  Claim C5 fails on the code where \<open>char\<close> is signed. On the file \<open>f_latin1\<close>
  the first byte of the ROM image is \<open>0xE9\<close>; it is passed to \<open>%02x\<close> as a
  negative \<open>int\<close> and printed with eight digits, so the payload of record 0 has 70
  characters, not 64 (as it has where \<open>char\<close> is unsigned).
\<close>

theorem C5_signed_char_payload_has_70_characters:
  "case main True f_latin1 of
     Inl r \<Rightarrow> False
   | Inr st \<Rightarrow>
       penumlst st = enumerator_lst True (rom st)
       \<and> rom st ! 0 = CHR 0xE9
       \<and> init_payload True (rom st) 0
           = ''00000000000000000000000000000000006800670066006500640063006200ffffffe9''
       \<and> length (init_payload True (rom st) 0) = 70
       \<and> length (init_payload False (rom st) 0) = 64"
proof -
  from f_latin1_runs obtain st where m: "main True f_latin1 = Inr st"
    by blast
  let ?c = "rom_content (header_strings 8 f_latin1) []"
  have r: "rom st = zero_filled ?c"
    using main_rom(1)[OF m] by (simp add: after_header_skip[OF f_latin1_skip])
  have c: "chunk (zero_filled ?c) 0 =
      [CHR 0xE9, NUL, CHR ''b'', NUL, CHR ''c'', NUL, CHR ''d'', NUL, CHR ''e'', NUL, CHR ''f'', NUL,
       CHR ''g'', NUL, CHR ''h'', NUL] @ replicate 16 NUL"
    by code_simp
  have "32 * 0 + 32 \<le> length (rom st)"
    using main_rom_length[OF m] by (simp add: ENUMROMSZ_def)
  from init_payload_chunk[OF this, of True]
  have "init_payload True (rom st) 0 =
      concat (map (\<lambda>c. fmt_02x False (as_unsigned (char_to_int True c))) (rev (chunk (zero_filled ?c) 0)))"
    by (simp add: r)
  also have "\<dots> = ''00000000000000000000000000000000006800670066006500640063006200ffffffe9''"
    unfolding c by code_simp
  finally have p: "init_payload True (rom st) 0
           = ''00000000000000000000000000000000006800670066006500640063006200ffffffe9''" .
  have "0 < length ?c" "?c ! 0 = CHR 0xE9"
    by code_simp+
  then have z: "rom st ! 0 = CHR 0xE9"
    by (simp add: r nth_zero_filled)
  have "plain_bytes False (rom st)"
    by (simp add: plain_bytes_def)
  from record_round_trip(1)[OF this \<open>32 * 0 + 32 \<le> length (rom st)\<close>]
  have u: "length (init_payload False (rom st) 0) = 64" .
  from p z u main_penumlst[OF m] show ?thesis
    by (simp add: m)
qed


end
